theory Spec2Isabelle
  imports Complex_Main
begin

section \<open>Experience replay buffers of catalyst/rl/offpolicy/utils.py\<close>

text \<open>
  The theory embeds the three data classes of \<^verbatim>\<open>utils.py\<close>: the ring buffer
  \<^verbatim>\<open>BufferDataset\<close>, the index generator \<^verbatim>\<open>BufferSampler\<close> and the episode
  accumulator \<^verbatim>\<open>SamplerBuffer\<close>.

  Conventions of the embedding.
  \<^item> Python integers are \<open>int\<close>; rewards and the discount are \<open>real\<close> (the rounding of
    \<^verbatim>\<open>float32\<close> is not modelled, sums and powers are exact).
  \<^item> One slot of the observation array is a value of a type \<open>'o\<close> with a zero (the
    all-zero array of shape \<^verbatim>\<open>observation_shape\<close>), one slot of the action array a
    value of a type \<open>'a\<close>.
  \<^item> An exception is a value of \<open>error\<close>. A method that mutates the object before it
    may raise returns the object together with \<open>error option\<close>; a method that only reads
    returns \<open>error + result\<close>.
  \<^item> \<^verbatim>\<open>np.empty\<close> gives an array of unspecified content: the content is a parameter
    of the constructors.
  \<^item> The lock \<^verbatim>\<open>_store_lock\<close> is not modelled: every method runs alone.
\<close>

subsection \<open>Python and numpy primitives\<close>

datatype error =
  AttributeError | ValueError | IndexError | ZeroDivisionError | UnboundLocalError

datatype dtype = Uint8 | Float32 | PyInt | PyBool

text \<open>
  Sequencing: \<open>ebind m f\<close> runs \<open>f\<close> on the result of \<open>m\<close> unless \<open>m\<close> raised;
  \<open>then_do r f\<close> runs the next statement \<open>f\<close> on the object unless the statements
  before it raised.
\<close>

definition ebind :: "error + 'x \<Rightarrow> ('x \<Rightarrow> error + 'y) \<Rightarrow> error + 'y" where
  "ebind m f = (case m of Inl e \<Rightarrow> Inl e | Inr x \<Rightarrow> f x)"

definition then_do :: "'s \<times> error option \<Rightarrow> ('s \<Rightarrow> 's \<times> error option) \<Rightarrow> 's \<times> error option" where
  "then_do r f = (case snd r of None \<Rightarrow> f (fst r) | Some e \<Rightarrow> r)"

definition assign :: "error + 'x \<Rightarrow> ('x \<Rightarrow> 's) \<Rightarrow> 's \<Rightarrow> 's \<times> error option" where
  "assign m upd s = (case m of Inl e \<Rightarrow> (s, Some e) | Inr x \<Rightarrow> (upd x, None))"

text \<open>Attribute lookup in the numpy module \<open>np\<close>, given as the table of its attributes.\<close>

definition np_attr :: "(string \<Rightarrow> dtype option) \<Rightarrow> string \<Rightarrow> error + dtype" where
  "np_attr np name = (case np name of None \<Rightarrow> Inl AttributeError | Some d \<Rightarrow> Inr d)"

text \<open>The dtype attributes that numpy has under the names the source uses or means.\<close>

definition numpy_module :: "string \<Rightarrow> dtype option" where
  "numpy_module =
     map_of [(''uint8'', Uint8), (''float32'', Float32), (''int'', PyInt), (''bool'', PyBool)]"

text \<open>\<^verbatim>\<open>np.empty(dims)\<close>: a negative dimension raises; the content is \<open>mem\<close>.\<close>

definition np_empty :: "int list \<Rightarrow> (nat \<Rightarrow> 'x) \<Rightarrow> error + 'x list" where
  "np_empty dims mem =
     (if list_ex (\<lambda>d. d < 0) dims then Inl ValueError
      else Inr (map mem [0..<nat (hd dims)]))"

text \<open>\<^verbatim>\<open>np.zeros((n, ) + shape)\<close>.\<close>

definition np_zeros :: "int \<Rightarrow> error + ('x::zero) list" where
  "np_zeros n = (if n < 0 then Inl ValueError else Inr (replicate (nat n) 0))"

text \<open>Python's \<^verbatim>\<open>a % m\<close> on integers, and numpy's on integer arrays (zero for \<open>m = 0\<close>).\<close>

definition py_mod :: "int \<Rightarrow> int \<Rightarrow> error + int" where
  "py_mod a m = (if m = 0 then Inl ZeroDivisionError else Inr (a mod m))"

definition np_mod :: "int \<Rightarrow> int \<Rightarrow> int" where
  "np_mod a m = (if m = 0 then 0 else a mod m)"

text \<open>\<^verbatim>\<open>np.arange(a, b)\<close> and \<^verbatim>\<open>range(n)\<close>.\<close>

definition np_arange :: "int \<Rightarrow> int \<Rightarrow> int list" where
  "np_arange a b = map (\<lambda>k. a + int k) [0..<nat (b - a)]"

definition py_range :: "int \<Rightarrow> int list" where
  "py_range n = map int [0..<nat n]"

text \<open>\<^verbatim>\<open>xs[i]\<close>: a negative index counts from the end, an index out of range raises.\<close>

definition np_getitem :: "'x list \<Rightarrow> int \<Rightarrow> error + 'x" where
  "np_getitem xs i =
     (let n = int (length xs) in
      if 0 \<le> i \<and> i < n then Inr (xs ! nat i)
      else if - n \<le> i \<and> i < 0 then Inr (xs ! nat (i + n))
      else Inl IndexError)"

text \<open>\<^verbatim>\<open>xs[indices]\<close> with an integer array of indices.\<close>

fun np_take :: "'x list \<Rightarrow> int list \<Rightarrow> error + 'x list" where
  "np_take xs [] = Inr []"
| "np_take xs (i # ids) =
     ebind (np_getitem xs i) (\<lambda>x. ebind (np_take xs ids) (\<lambda>ys. Inr (x # ys)))"

text \<open>The bounds of a slice \<^verbatim>\<open>xs[lo:hi]\<close> of step 1, and the slice.\<close>

definition slice_bound :: "int \<Rightarrow> int \<Rightarrow> int" where
  "slice_bound n i = (if i < 0 then max 0 (i + n) else min i n)"

definition py_slice :: "'x list \<Rightarrow> int \<Rightarrow> int \<Rightarrow> 'x list" where
  "py_slice xs lo hi =
     (let n = int (length xs); a = slice_bound n lo; b = slice_bound n hi
      in take (nat (b - a)) (drop (nat a) xs))"

text \<open>
  The value of an assignment is broadcast along the first axis: it fits a target of
  \<open>t\<close> rows when it has \<open>t\<close> rows, or one row, which is then repeated.
\<close>

definition broadcast_rows :: "nat \<Rightarrow> 'x list \<Rightarrow> error + 'x list" where
  "broadcast_rows t vals =
     (if length vals = t then Inr vals
      else if length vals = 1 then Inr (replicate t (hd vals))
      else Inl ValueError)"

text \<open>
  \<^verbatim>\<open>xs[indices] = vals\<close>: the value is broadcast, every index is checked, then the
  rows are written in order, so that the last write to a repeated index stays.
\<close>

definition norm_index :: "nat \<Rightarrow> int \<Rightarrow> nat" where
  "norm_index n i = (if i < 0 then nat (i + int n) else nat i)"

fun scatter :: "'x list \<Rightarrow> nat list \<Rightarrow> 'x list \<Rightarrow> 'x list" where
  "scatter xs (i # ids) (v # vs) = scatter (xs[i := v]) ids vs"
| "scatter xs _ _ = xs"

definition np_setitems :: "'x list \<Rightarrow> int list \<Rightarrow> 'x list \<Rightarrow> error + 'x list" where
  "np_setitems xs indices vals =
     ebind (broadcast_rows (length indices) vals) (\<lambda>rows.
       if list_all (\<lambda>i. - int (length xs) \<le> i \<and> i < int (length xs)) indices
       then Inr (scatter xs (map (norm_index (length xs)) indices) rows)
       else Inl IndexError)"

text \<open>\<^verbatim>\<open>xs[i] = v\<close> with one integer index.\<close>

definition np_setitem :: "'x list \<Rightarrow> int \<Rightarrow> 'x \<Rightarrow> error + 'x list" where
  "np_setitem xs i v =
     (if - int (length xs) \<le> i \<and> i < int (length xs)
      then Inr (xs[norm_index (length xs) i := v])
      else Inl IndexError)"

text \<open>\<^verbatim>\<open>state[-k:] = vals\<close>.\<close>

definition np_set_tail :: "'x list \<Rightarrow> int \<Rightarrow> 'x list \<Rightarrow> error + 'x list" where
  "np_set_tail state k vals =
     (let n = int (length state); a = slice_bound n (- k) in
      ebind (broadcast_rows (nat (n - a)) vals) (\<lambda>rows. Inr (take (nat a) state @ rows)))"

subsection \<open>BufferDataset\<close>

record ('o, 'a) buffer =
  observation_shape :: "int list"
  action_shape :: "int list"
  history_len :: int
  n_step :: int
  gamma :: real
  max_size :: int
  obs_dtype :: dtype
  act_dtype :: dtype
  len :: int
  pointer :: int
  observations :: "'o list"
  actions :: "'a list"
  rewards :: "real list"
  dones :: "bool list"

text \<open>
  \<^verbatim>\<open>BufferDataset.__init__\<close> (lines 38 to 58). The conditional expressions evaluate
  only the branch they select. The four \<open>mem\<close> arguments are the contents that
  \<^verbatim>\<open>np.empty\<close> happens to return.
\<close>

definition BufferDataset_init ::
  "(string \<Rightarrow> dtype option) \<Rightarrow> (nat \<Rightarrow> 'o) \<Rightarrow> (nat \<Rightarrow> 'a) \<Rightarrow> (nat \<Rightarrow> real) \<Rightarrow> (nat \<Rightarrow> bool) \<Rightarrow>
   int list \<Rightarrow> int list \<Rightarrow> int \<Rightarrow> int \<Rightarrow> int \<Rightarrow> real \<Rightarrow> bool \<Rightarrow> bool \<Rightarrow> error + ('o, 'a) buffer" where
  "BufferDataset_init np mem_o mem_a mem_r mem_d
       observation_shape' action_shape' max_size' history_len' n_step' gamma'
       discrete_actions byte_observations =
     (let ashape = (if discrete_actions then [1] else action_shape') in
      ebind (if byte_observations then np_attr np ''unit8'' else np_attr np ''float32'') (\<lambda>odt.
      ebind (if discrete_actions then np_attr np ''int'' else np_attr np ''float32'') (\<lambda>adt.
      ebind (np_empty (max_size' # observation_shape') mem_o) (\<lambda>obs.
      ebind (np_empty (max_size' # ashape) mem_a) (\<lambda>acts.
      ebind (np_attr np ''float32'') (\<lambda>_.
      ebind (np_empty [max_size'] mem_r) (\<lambda>rews.
      ebind (np_attr np ''bool'') (\<lambda>_.
      ebind (np_empty [max_size'] mem_d) (\<lambda>dns.
        Inr \<lparr> observation_shape = observation_shape', action_shape = ashape,
              history_len = history_len', n_step = n_step', gamma = gamma',
              max_size = max_size', obs_dtype = odt, act_dtype = adt,
              len = 0, pointer = 0,
              observations = obs, actions = acts, rewards = rews, dones = dns \<rparr>)))))))))"

text \<open>An episode as \<^verbatim>\<open>push_episode\<close> unpacks it: four arrays, one row per step.\<close>

record ('o, 'a) episode =
  ep_observations :: "'o list"
  ep_actions :: "'a list"
  ep_rewards :: "real list"
  ep_dones :: "bool list"

text \<open>
  \<^verbatim>\<open>BufferDataset.push_episode\<close> (lines 60 to 74). \<^verbatim>\<open>self.len\<close> is assigned before
  the arrays are written, and the pointer after them: an exception leaves the object
  as the statements before it made it.
\<close>

definition push_episode ::
  "('o, 'a) buffer \<Rightarrow> ('o, 'a) episode \<Rightarrow> ('o, 'a) buffer \<times> error option" where
  "push_episode self episode =
     (let episode_len = int (length (ep_rewards episode));
          b1 = self\<lparr>len := min (len self + episode_len) (max_size self)\<rparr>;
          indices = map (\<lambda>i. np_mod i (max_size b1))
                      (np_arange (pointer b1) (pointer b1 + episode_len))
      in
      then_do (assign (np_setitems (observations b1) indices (ep_observations episode))
                 (\<lambda>v. b1\<lparr>observations := v\<rparr>) b1) (\<lambda>b2.
      then_do (assign (np_setitems (actions b2) indices (ep_actions episode))
                 (\<lambda>v. b2\<lparr>actions := v\<rparr>) b2) (\<lambda>b3.
      then_do (assign (np_setitems (rewards b3) indices (ep_rewards episode))
                 (\<lambda>v. b3\<lparr>rewards := v\<rparr>) b3) (\<lambda>b4.
      then_do (assign (np_setitems (dones b4) indices (ep_dones episode))
                 (\<lambda>v. b4\<lparr>dones := v\<rparr>) b4) (\<lambda>b5.
      assign (py_mod (pointer b5 + episode_len) (max_size b5))
                 (\<lambda>v. b5\<lparr>pointer := v\<rparr>) b5)))))"

text \<open>\<^verbatim>\<open>BufferDataset.__len__\<close> (lines 131 to 132).\<close>

definition buffer_len :: "('o, 'a) buffer \<Rightarrow> int" where
  "buffer_len b = len b"

text \<open>
  A sequence of \<^verbatim>\<open>push_episode\<close> calls on one buffer; a caller that catches the
  exception of a call goes on with the buffer as that call left it.
\<close>

fun push_all :: "('o, 'a) buffer \<Rightarrow> ('o, 'a) episode list \<Rightarrow> ('o, 'a) buffer" where
  "push_all b [] = b"
| "push_all b (ep # eps) = push_all (fst (push_episode b ep)) eps"

text \<open>The number of steps of a sequence of episodes.\<close>

definition total_steps :: "('o, 'a) episode list \<Rightarrow> int" where
  "total_steps eps = sum_list (map (\<lambda>ep. int (length (ep_rewards ep))) eps)"

text \<open>
  The shape of a buffer that the constructor returned and \<^verbatim>\<open>push_episode\<close> was
  called on: the four arrays have \<open>max_size\<close> slots, the filled count is between 0
  and \<open>max_size\<close>, and the pointer is a slot (0 when there is none).
\<close>

definition buffer_inv :: "('o, 'a) buffer \<Rightarrow> bool" where
  "buffer_inv b \<longleftrightarrow>
     length (observations b) = nat (max_size b) \<and> length (actions b) = nat (max_size b) \<and>
     length (rewards b) = nat (max_size b) \<and> length (dones b) = nat (max_size b) \<and>
     0 \<le> len b \<and> len b \<le> max_size b \<and> 0 \<le> pointer b \<and> pointer b < max 1 (max_size b)"

text \<open>
  The backward walk of \<^verbatim>\<open>get_state\<close> (lines 86 to 90): the loop over
  \<^verbatim>\<open>range(history_len - 1)\<close>, with the list \<open>indices\<close> built so far. The index
  \<open>idx\<close> is a Python integer, so \<^verbatim>\<open>%\<close> is Python's; \<^verbatim>\<open>or\<close> reads the done flag
  only when the slot is inside the filled range.
\<close>

fun walk_back :: "('o, 'a) buffer \<Rightarrow> int \<Rightarrow> int list \<Rightarrow> int list \<Rightarrow> error + int list" where
  "walk_back self idx [] indices = Inr indices"
| "walk_back self idx (i # rest) indices =
     ebind (py_mod (idx - i - 1) (max_size self)) (\<lambda>next_idx.
       if next_idx \<ge> len self then Inr indices
       else ebind (np_getitem (dones self) next_idx) (\<lambda>d.
         if d then Inr indices else walk_back self idx rest (indices @ [next_idx])))"

text \<open>\<^verbatim>\<open>BufferDataset.get_state\<close> (lines 76 to 96).\<close>

definition get_state :: "('o::zero, 'a) buffer \<Rightarrow> int \<Rightarrow> int \<Rightarrow> error + 'o list" where
  "get_state self idx history_len' =
     (let start_idx = idx - history_len' + 1 in
      if start_idx < 0 \<or> list_ex (\<lambda>d. d) (py_slice (dones self) start_idx (idx + 1)) then
        ebind (np_zeros history_len') (\<lambda>state.
        ebind (walk_back self idx (py_range (history_len' - 1)) [idx]) (\<lambda>indices.
        let indices = rev indices in
        ebind (np_take (observations self) indices) (\<lambda>vals.
        np_set_tail state (int (length indices)) vals)))
      else Inr (py_slice (observations self) start_idx (idx + 1)))"

text \<open>
  The reward loop of \<^verbatim>\<open>get_transition_n_step\<close> (lines 105 to 109) over the
  enumerated indices. \<open>done\<close> is \<open>None\<close> as long as the variable is not bound.
\<close>

fun reward_loop ::
  "('o, 'a) buffer \<Rightarrow> real \<Rightarrow> (nat \<times> int) list \<Rightarrow> real \<Rightarrow> bool option \<Rightarrow> error + real \<times> bool option" where
  "reward_loop self gamma' [] cum_reward done = Inr (cum_reward, done)"
| "reward_loop self gamma' ((num, i) # rest) cum_reward done =
     ebind (np_getitem (rewards self) i) (\<lambda>r.
     ebind (np_getitem (dones self) i) (\<lambda>d.
       if d then Inr (cum_reward + r * gamma' ^ num, Some d)
       else reward_loop self gamma' rest (cum_reward + r * gamma' ^ num) (Some d)))"

text \<open>
  \<^verbatim>\<open>BufferDataset.get_transition_n_step\<close> (lines 98 to 110). The returned tuple
  reads \<^verbatim>\<open>self.actions[idx]\<close> before the variable \<^verbatim>\<open>done\<close>, which is unbound
  when the loop has not run.
\<close>

definition get_transition_n_step ::
  "('o::zero, 'a) buffer \<Rightarrow> int \<Rightarrow> int \<Rightarrow> int \<Rightarrow> real \<Rightarrow>
   error + 'o list \<times> 'a \<times> real \<times> 'o list \<times> bool" where
  "get_transition_n_step self idx history_len' n_step' gamma' =
     ebind (get_state self idx history_len') (\<lambda>state.
     ebind (py_mod (idx + n_step') (max_size self)) (\<lambda>next_idx.
     ebind (get_state self next_idx history_len') (\<lambda>next_state.
     let indices = map (\<lambda>i. np_mod i (max_size self)) (np_arange idx (idx + n_step')) in
     ebind (reward_loop self gamma' (enumerate 0 indices) 0 None) (\<lambda>(cum_reward, done).
     ebind (np_getitem (actions self) idx) (\<lambda>action.
       case done of
         None \<Rightarrow> Inl UnboundLocalError
       | Some d \<Rightarrow> Inr (state, action, cum_reward, next_state, d))))))"

text \<open>
  \<^verbatim>\<open>BufferDataset.__getitem__\<close> (lines 112 to 129): the dictionary of the five
  fields; the conversion to \<^verbatim>\<open>float32\<close> turns the flag into 1 or 0.
\<close>

record ('o, 'a) transition_dict =
  td_state :: "'o list"
  td_action :: "'a"
  td_reward :: real
  td_next_state :: "'o list"
  td_done :: real

definition getitem :: "('o::zero, 'a) buffer \<Rightarrow> int \<Rightarrow> error + ('o, 'a) transition_dict" where
  "getitem self index =
     ebind (get_transition_n_step self index (history_len self) (n_step self) (gamma self))
       (\<lambda>(state, action, reward, next_state, done).
          Inr \<lparr> td_state = state, td_action = action, td_reward = reward,
                td_next_state = next_state, td_done = (if done then 1 else 0) \<rparr>)"

subsection \<open>BufferSampler\<close>

text \<open>
  \<^verbatim>\<open>np.random.choice(range(n), size=k)\<close>: numpy raises \<^verbatim>\<open>ValueError\<close> on an empty
  population when samples are asked for; otherwise each of the \<open>k\<close> draws is an element
  of the population. The random source is the parameter \<open>draw\<close>.
\<close>

definition np_random_choice :: "(nat \<Rightarrow> nat) \<Rightarrow> int \<Rightarrow> int \<Rightarrow> error + int list" where
  "np_random_choice draw n k =
     (if k < 0 then Inl ValueError
      else if n \<le> 0 \<and> k \<noteq> 0 then Inl ValueError
      else Inr (map (\<lambda>j. int (draw j mod nat n)) [0..<nat k]))"

record buffer_sampler =
  bs_buffer_history_len :: int
  bs_epoch_len :: int
  bs_batch_size :: int
  bs_len :: int

text \<open>
  \<^verbatim>\<open>BufferSampler.__init__\<close> (lines 137 to 142) and \<^verbatim>\<open>__iter__\<close> (lines 144 to 146).
  The field \<^verbatim>\<open>self.buffer\<close> is a reference to the shared buffer: the buffer as it is
  at the time of the call is an argument of \<open>sampler_iter\<close>.
\<close>

definition BufferSampler_init :: "('o, 'a) buffer \<Rightarrow> int \<Rightarrow> int \<Rightarrow> buffer_sampler" where
  "BufferSampler_init buffer' epoch_len batch_size =
     \<lparr> bs_buffer_history_len = history_len buffer',
       bs_epoch_len = epoch_len, bs_batch_size = batch_size,
       bs_len = epoch_len * batch_size \<rparr>"

definition sampler_iter ::
  "(nat \<Rightarrow> nat) \<Rightarrow> buffer_sampler \<Rightarrow> ('o, 'a) buffer \<Rightarrow> error + int list" where
  "sampler_iter draw self buffer' = np_random_choice draw (buffer_len buffer') (bs_len self)"

subsection \<open>SamplerBuffer\<close>

record ('o, 'a) sampler_buffer =
  sb_size :: int
  sb_observation_shape :: "int list"
  sb_action_shape :: "int list"
  sb_obs_dtype :: dtype
  sb_act_dtype :: dtype
  sb_pointer :: int
  sb_observations :: "'o list"
  sb_actions :: "'a list"
  sb_rewards :: "real list"
  sb_dones :: "bool list"

text \<open>\<^verbatim>\<open>SamplerBuffer.__init__\<close> (lines 161 to 174).\<close>

definition SamplerBuffer_init ::
  "(string \<Rightarrow> dtype option) \<Rightarrow> (nat \<Rightarrow> 'o) \<Rightarrow> (nat \<Rightarrow> 'a) \<Rightarrow> (nat \<Rightarrow> real) \<Rightarrow> (nat \<Rightarrow> bool) \<Rightarrow>
   int \<Rightarrow> int list \<Rightarrow> int list \<Rightarrow> bool \<Rightarrow> bool \<Rightarrow> error + ('o, 'a) sampler_buffer" where
  "SamplerBuffer_init np mem_o mem_a mem_r mem_d
       capacity observation_shape' action_shape' discrete_actions byte_observations =
     ebind (if byte_observations then np_attr np ''unit8'' else np_attr np ''float32'') (\<lambda>odt.
     ebind (if discrete_actions then np_attr np ''int'' else np_attr np ''float32'') (\<lambda>adt.
     ebind (np_empty (capacity # observation_shape') mem_o) (\<lambda>obs.
     ebind (np_empty (capacity # action_shape') mem_a) (\<lambda>acts.
     ebind (np_attr np ''float32'') (\<lambda>_.
     ebind (np_empty [capacity] mem_r) (\<lambda>rews.
     ebind (np_attr np ''bool'') (\<lambda>_.
     ebind (np_empty [capacity] mem_d) (\<lambda>dns.
       Inr \<lparr> sb_size = capacity, sb_observation_shape = observation_shape',
             sb_action_shape = action_shape', sb_obs_dtype = odt, sb_act_dtype = adt,
             sb_pointer = 0,
             sb_observations = obs, sb_actions = acts, sb_rewards = rews,
             sb_dones = dns \<rparr>))))))))"

text \<open>\<^verbatim>\<open>SamplerBuffer.init_with_observation\<close> (lines 176 to 178).\<close>

definition init_with_observation ::
  "('o, 'a) sampler_buffer \<Rightarrow> 'o \<Rightarrow> ('o, 'a) sampler_buffer \<times> error option" where
  "init_with_observation self observation =
     then_do (assign (np_setitem (sb_observations self) 0 observation)
                (\<lambda>v. self\<lparr>sb_observations := v\<rparr>) self) (\<lambda>s1.
     (s1\<lparr>sb_pointer := 0\<rparr>, None))"

text \<open>
  Python's \<^verbatim>\<open>pointer or self.pointer\<close>: the left operand when it is truthy, so
  neither \<^verbatim>\<open>None\<close> nor 0; the right operand otherwise.
\<close>

definition py_or :: "int option \<Rightarrow> int \<Rightarrow> int" where
  "py_or p q = (case p of None \<Rightarrow> q | Some v \<Rightarrow> if v = 0 then q else v)"

text \<open>\<^verbatim>\<open>SamplerBuffer.get_state\<close> (lines 180 to 188).\<close>

definition sb_get_state ::
  "('o::zero, 'a) sampler_buffer \<Rightarrow> int \<Rightarrow> int option \<Rightarrow> error + 'o list" where
  "sb_get_state self history_len' pointer' =
     (let pointer' = py_or pointer' (sb_pointer self) in
      ebind (np_zeros history_len') (\<lambda>state.
      let indices = np_arange (max 0 (pointer' - history_len' + 1)) (pointer' + 1) in
      ebind (np_take (sb_observations self) indices) (\<lambda>vals.
      np_set_tail state (int (length indices)) vals)))"

text \<open>\<^verbatim>\<open>SamplerBuffer.push_transition\<close> (lines 190 to 198).\<close>

record ('o, 'a) transition =
  s_tp1 :: 'o
  a_t :: 'a
  r_t :: real
  d_t :: bool

definition push_transition ::
  "('o, 'a) sampler_buffer \<Rightarrow> ('o, 'a) transition \<Rightarrow> ('o, 'a) sampler_buffer \<times> error option" where
  "push_transition self transition =
     then_do (assign (np_setitem (sb_observations self) (sb_pointer self + 1) (s_tp1 transition))
                (\<lambda>v. self\<lparr>sb_observations := v\<rparr>) self) (\<lambda>s1.
     then_do (assign (np_setitem (sb_actions s1) (sb_pointer s1) (a_t transition))
                (\<lambda>v. s1\<lparr>sb_actions := v\<rparr>) s1) (\<lambda>s2.
     then_do (assign (np_setitem (sb_rewards s2) (sb_pointer s2) (r_t transition))
                (\<lambda>v. s2\<lparr>sb_rewards := v\<rparr>) s2) (\<lambda>s3.
     then_do (assign (np_setitem (sb_dones s3) (sb_pointer s3) (d_t transition))
                (\<lambda>v. s3\<lparr>sb_dones := v\<rparr>) s3) (\<lambda>s4.
     (s4\<lparr>sb_pointer := sb_pointer s4 + 1\<rparr>, None)))))"

text \<open>\<^verbatim>\<open>SamplerBuffer.get_complete_episode\<close> (lines 200 to 206).\<close>

definition get_complete_episode ::
  "('o, 'a) sampler_buffer \<Rightarrow> error + 'o list \<times> 'a list \<times> real list \<times> bool list" where
  "get_complete_episode self =
     (let indices = np_arange 0 (sb_pointer self) in
      ebind (np_take (sb_observations self) indices) (\<lambda>observations'.
      ebind (np_take (sb_actions self) indices) (\<lambda>actions'.
      ebind (np_take (sb_rewards self) indices) (\<lambda>rewards'.
      ebind (np_take (sb_dones self) indices) (\<lambda>dones'.
        Inr (observations', actions', rewards', dones'))))))"

text \<open>\<^verbatim>\<open>SamplerBuffer.get_states_history\<close> (lines 208 to 214): the list comprehension.\<close>

fun collect_states :: "('o::zero, 'a) sampler_buffer \<Rightarrow> int \<Rightarrow> int list \<Rightarrow> error + 'o list list" where
  "collect_states self history_len' [] = Inr []"
| "collect_states self history_len' (i # rest) =
     ebind (sb_get_state self history_len' (Some i)) (\<lambda>st.
     ebind (collect_states self history_len' rest) (\<lambda>sts. Inr (st # sts)))"

definition get_states_history :: "('o::zero, 'a) sampler_buffer \<Rightarrow> int \<Rightarrow> error + 'o list list" where
  "get_states_history self history_len' =
     collect_states self history_len' (py_range (sb_pointer self))"

text \<open>
  The calls a rollout makes on its accumulator: the transitions appended one at a time,
  up to the first call that raises.
\<close>

fun append_all ::
  "('o, 'a) sampler_buffer \<Rightarrow> ('o, 'a) transition list \<Rightarrow> ('o, 'a) sampler_buffer \<times> error option" where
  "append_all self [] = (self, None)"
| "append_all self (t # ts) = then_do (push_transition self t) (\<lambda>s. append_all s ts)"

text \<open>
  The accumulator after the seed and the steps whose observations (the seed first),
  actions, rewards and flags are \<open>os\<close>, \<open>as\<close>, \<open>rs\<close> and \<open>ds\<close>.
\<close>

definition acc_inv ::
  "('o, 'a) sampler_buffer \<Rightarrow> 'o list \<Rightarrow> 'a list \<Rightarrow> real list \<Rightarrow> bool list \<Rightarrow> bool" where
  "acc_inv sb os as rs ds \<longleftrightarrow>
     length (sb_actions sb) = length (sb_observations sb) \<and>
     length (sb_rewards sb) = length (sb_observations sb) \<and>
     length (sb_dones sb) = length (sb_observations sb) \<and>
     sb_pointer sb = int (length as) \<and> length as < length (sb_observations sb) \<and>
     length os = Suc (length as) \<and> length rs = length as \<and> length ds = length as \<and>
     take (Suc (length as)) (sb_observations sb) = os \<and>
     take (length as) (sb_actions sb) = as \<and>
     take (length as) (sb_rewards sb) = rs \<and>
     take (length as) (sb_dones sb) = ds"

subsection \<open>Concrete objects\<close>

text \<open>
  A buffer of capacity 2 as the constructor returns it when \<^verbatim>\<open>np.empty\<close> hands out zeroed
  memory, and an episode of three steps.
\<close>

definition ex_b0 :: "(int, int) buffer" where
  "ex_b0 = \<lparr> observation_shape = [], action_shape = [1],
              history_len = 1, n_step = 1, gamma = 1/2,
              max_size = 2, obs_dtype = Float32, act_dtype = Float32,
              len = 0, pointer = 0,
              observations = [0, 0], actions = [0, 0], rewards = [0, 0],
              dones = [False, False] \<rparr>"

definition ex_ep3 :: "(int, int) episode" where
  "ex_ep3 = \<lparr> ep_observations = [10, 11, 12], ep_actions = [20, 21, 22],
      ep_rewards = [1, 2, 3], ep_dones = [False, False, True] \<rparr>"

text \<open>Two episodes of one step, and the full buffer that pushing them makes.\<close>

definition ex_ep_a :: "(int, int) episode" where
  "ex_ep_a = \<lparr> ep_observations = [10], ep_actions = [20], ep_rewards = [1],
      ep_dones = [False] \<rparr>"

definition ex_ep_b :: "(int, int) episode" where
  "ex_ep_b = \<lparr> ep_observations = [11], ep_actions = [21], ep_rewards = [2],
      ep_dones = [True] \<rparr>"

definition ex_full :: "(int, int) buffer" where
  "ex_full = \<lparr> observation_shape = [], action_shape = [1],
              history_len = 1, n_step = 1, gamma = 1/2,
              max_size = 2, obs_dtype = Float32, act_dtype = Float32,
              len = 2, pointer = 0,
              observations = [10, 11], actions = [20, 21], rewards = [1, 2],
              dones = [False, True] \<rparr>"

text \<open>The buffer after the first of the two episodes only.\<close>

definition ex_half :: "(int, int) buffer" where
  "ex_half = \<lparr> observation_shape = [], action_shape = [1],
              history_len = 1, n_step = 1, gamma = 1/2,
              max_size = 2, obs_dtype = Float32, act_dtype = Float32,
              len = 1, pointer = 1,
              observations = [10, 0], actions = [20, 0], rewards = [1, 0],
              dones = [False, False] \<rparr>"

text \<open>The full buffer with the done flag of slot 0 set.\<close>

definition ex_cut :: "(int, int) buffer" where
  "ex_cut = ex_full\<lparr>dones := [True, False]\<rparr>"

text \<open>
  An accumulator of capacity 3 as its constructor returns it on zeroed memory, and two
  transitions.
\<close>

definition ex_sb0 :: "(int, int) sampler_buffer" where
  "ex_sb0 = \<lparr> sb_size = 3, sb_observation_shape = [], sb_action_shape = [1],
     sb_obs_dtype = Float32, sb_act_dtype = Float32, sb_pointer = 0,
     sb_observations = [0, 0, 0], sb_actions = [0, 0, 0], sb_rewards = [0, 0, 0],
     sb_dones = [False, False, False] \<rparr>"

definition ex_t1 :: "(int, int) transition" where
  "ex_t1 = \<lparr> s_tp1 = 11, a_t = 21, r_t = 1, d_t = False \<rparr>"

definition ex_t2 :: "(int, int) transition" where
  "ex_t2 = \<lparr> s_tp1 = 12, a_t = 22, r_t = 2, d_t = True \<rparr>"

text \<open>The accumulator after the seed 10 and after the two transitions.\<close>

definition ex_sb1 :: "(int, int) sampler_buffer" where
  "ex_sb1 = ex_sb0\<lparr>sb_observations := [10, 0, 0]\<rparr>"

definition ex_sb3 :: "(int, int) sampler_buffer" where
  "ex_sb3 = \<lparr> sb_size = 3, sb_observation_shape = [], sb_action_shape = [1],
     sb_obs_dtype = Float32, sb_act_dtype = Float32, sb_pointer = 2,
     sb_observations = [10, 11, 12], sb_actions = [21, 22, 0], sb_rewards = [1, 2, 0],
     sb_dones = [False, True, False] \<rparr>"

section \<open>Properties\<close>

subsection \<open>Sequencing\<close>

lemma ebind_Inr [simp]: "ebind (Inr x) f = f x"
  by (simp add: ebind_def)

lemma ebind_Inl [simp]: "ebind (Inl e) f = Inl e"
  by (simp add: ebind_def)

lemma ebind_eq_Inr: "ebind m f = Inr y \<longleftrightarrow> (\<exists>x. m = Inr x \<and> f x = Inr y)"
  by (cases m) simp_all

lemma then_do_None [simp]: "then_do (s, None) f = f s"
  by (simp add: then_do_def)

lemma then_do_Some [simp]: "then_do (s, Some e) f = (s, Some e)"
  by (simp add: then_do_def)

lemma assign_Inr [simp]: "assign (Inr x) upd s = (upd x, None)"
  by (simp add: assign_def)

lemma assign_Inl [simp]: "assign (Inl e) upd s = (s, Some e)"
  by (simp add: assign_def)

lemma then_do_pres: "P (fst r) \<Longrightarrow> (\<And>s. P s \<Longrightarrow> P (fst (f s))) \<Longrightarrow> P (fst (then_do r f))"
  by (cases r) (auto simp: then_do_def split: option.splits)

lemma assign_pres: "P s \<Longrightarrow> (\<And>x. m = Inr x \<Longrightarrow> P (upd x)) \<Longrightarrow> P (fst (assign m upd s))"
  by (cases m) simp_all

subsection \<open>Construction\<close>

lemma np_empty_length: "np_empty (m # dims) mem = Inr xs \<Longrightarrow> 0 \<le> m \<and> length xs = nat m"
  by (auto simp: np_empty_def split: if_splits)

lemma BufferDataset_init_fields:
  assumes "BufferDataset_init np mem_o mem_a mem_r mem_d os as m h n g da bo = Inr b"
  shows "max_size b = m \<and> len b = 0 \<and> pointer b = 0 \<and> 0 \<le> m \<and>
    length (observations b) = nat m \<and> length (actions b) = nat m \<and>
    length (rewards b) = nat m \<and> length (dones b) = nat m \<and>
    history_len b = h \<and> n_step b = n \<and> gamma b = g"
proof -
  from assms obtain odt adt obs acts rews dns where
    o: "np_empty (m # os) mem_o = Inr obs" and
    a: "np_empty (m # (if da then [1] else as)) mem_a = Inr acts" and
    r: "np_empty [m] mem_r = Inr rews" and
    d: "np_empty [m] mem_d = Inr dns" and
    b: "b = \<lparr> observation_shape = os, action_shape = (if da then [1] else as),
              history_len = h, n_step = n, gamma = g,
              max_size = m, obs_dtype = odt, act_dtype = adt,
              len = 0, pointer = 0,
              observations = obs, actions = acts, rewards = rews, dones = dns \<rparr>"
    unfolding BufferDataset_init_def Let_def ebind_eq_Inr by blast
  show ?thesis
    using np_empty_length[OF o] np_empty_length[OF a] np_empty_length[OF r] np_empty_length[OF d]
    by (simp add: b)
qed

lemma ex_b0_init:
  "BufferDataset_init numpy_module (\<lambda>_. 0) (\<lambda>_. 0) (\<lambda>_. 0) (\<lambda>_. False)
      [] [1] 2 1 1 (1/2) False False = Inr ex_b0"
  by (simp add: ex_b0_def BufferDataset_init_def numpy_module_def np_attr_def
      np_empty_def upt_rec)

text \<open>
  Claim C9 (construction succeeds for every combination of the options, and
  \<^verbatim>\<open>byte_observations=True\<close> selects byte storage). The code does not do this: the
  dtype is written \<^verbatim>\<open>np.unit8\<close>, which numpy does not have, so both constructors
  raise \<^verbatim>\<open>AttributeError\<close> whenever \<^verbatim>\<open>byte_observations\<close> is true, whatever the
  other options are.
\<close>

theorem byte_observations_raises:
  "BufferDataset_init numpy_module mem_o mem_a mem_r mem_d os as m h n g da True
     = Inl AttributeError \<and>
   SamplerBuffer_init numpy_module mem_o mem_a mem_r mem_d m os as da True
     = Inl AttributeError"
  by (simp add: BufferDataset_init_def SamplerBuffer_init_def numpy_module_def np_attr_def)

subsection \<open>The filled count\<close>

lemma push_episode_len_max_size:
  "len (fst (push_episode b ep)) = min (len b + int (length (ep_rewards ep))) (max_size b) \<and>
   max_size (fst (push_episode b ep)) = max_size b"
proof -
  define Q :: "('a, 'b) buffer \<Rightarrow> bool" where
    "Q = (\<lambda>s. len s = min (len b + int (length (ep_rewards ep))) (max_size b) \<and>
               max_size s = max_size b)"
  have upd: "\<And>s v. Q s \<Longrightarrow> Q (s\<lparr>observations := v\<rparr>)" "\<And>s v. Q s \<Longrightarrow> Q (s\<lparr>actions := v\<rparr>)"
    "\<And>s v. Q s \<Longrightarrow> Q (s\<lparr>rewards := v\<rparr>)" "\<And>s v. Q s \<Longrightarrow> Q (s\<lparr>dones := v\<rparr>)"
    "\<And>s v. Q s \<Longrightarrow> Q (s\<lparr>pointer := v\<rparr>)"
    by (simp_all add: Q_def)
  have Q0: "Q (b\<lparr>len := min (len b + int (length (ep_rewards ep))) (max_size b)\<rparr>)"
    by (simp add: Q_def)
  have "Q (fst (push_episode b ep))"
    unfolding push_episode_def Let_def
    by (intro then_do_pres[where P=Q] assign_pres[where P=Q] upd Q0)
  then show ?thesis by (simp add: Q_def)
qed

lemma total_steps_nonneg: "0 \<le> total_steps eps"
  unfolding total_steps_def by (induction eps) simp_all

lemma total_steps_append: "total_steps (eps @ eps') = total_steps eps + total_steps eps'"
  by (simp add: total_steps_def)

lemma push_all_max_size: "max_size (push_all b eps) = max_size b"
  by (induction eps arbitrary: b) (simp_all add: push_episode_len_max_size)

lemma push_all_append: "push_all b (eps @ eps') = push_all (push_all b eps) eps'"
  by (induction eps arbitrary: b) simp_all

lemma push_all_len:
  "0 \<le> len b \<Longrightarrow> len b \<le> max_size b \<Longrightarrow>
   len (push_all b eps) = min (len b + total_steps eps) (max_size b)"
proof (induction eps arbitrary: b)
  case Nil
  then show ?case by (simp add: total_steps_def)
next
  case (Cons ep eps)
  let ?b = "fst (push_episode b ep)"
  have "len (push_all ?b eps) = min (len ?b + total_steps eps) (max_size ?b)"
    using Cons.prems by (intro Cons.IH) (simp_all add: push_episode_len_max_size)
  moreover have "0 \<le> total_steps eps" by (rule total_steps_nonneg)
  ultimately show ?case
    using Cons.prems by (simp add: push_episode_len_max_size total_steps_def)
qed

text \<open>
  Claim C6. On a buffer that the constructor returned, after any sequence \<open>eps\<close> of
  \<^verbatim>\<open>push_episode\<close> calls (of episodes of any length, whether a call raised or not),
  \<^verbatim>\<open>len()\<close> is the smaller of the number of pushed steps and the capacity. So it never
  exceeds the capacity, it equals the capacity once more than capacity steps were
  pushed (and after every later push, whose sequence has still more steps), and one
  more push never makes it smaller.
\<close>

theorem len_capacity_bound:
  assumes "BufferDataset_init np mem_o mem_a mem_r mem_d os as m h n g da bo = Inr b0"
  shows "buffer_len (push_all b0 eps) = min (total_steps eps) m \<and>
         buffer_len (push_all b0 eps) \<le> m \<and>
         (m < total_steps eps \<longrightarrow> buffer_len (push_all b0 eps) = m) \<and>
         buffer_len (push_all b0 eps) \<le> buffer_len (push_all b0 (eps @ [ep]))"
proof -
  have f: "max_size b0 = m" "len b0 = 0" "0 \<le> m"
    using BufferDataset_init_fields[OF assms] by simp_all
  have l: "len (push_all b0 es) = min (total_steps es) m" for es
    using push_all_len[of b0 es] f by simp
  have "0 \<le> total_steps [ep]" by (rule total_steps_nonneg)
  then show ?thesis
    unfolding buffer_len_def l total_steps_append by auto
qed

theorem len_capacity_bound_witness:
  "BufferDataset_init numpy_module (\<lambda>_. 0) (\<lambda>_. 0) (\<lambda>_. 0) (\<lambda>_. False)
      [] [1] 2 1 1 (1/2) False False = Inr ex_b0 \<and>
   (2::int) < total_steps [ex_ep3] \<and>
   buffer_len (push_all ex_b0 [ex_ep3]) = 2 \<and>
   buffer_len (push_all ex_b0 [ex_ep3]) \<le> buffer_len (push_all ex_b0 ([ex_ep3] @ [ex_ep3]))"
proof -
  have t: "(2::int) < total_steps [ex_ep3]"
    by (simp add: total_steps_def ex_ep3_def)
  show ?thesis
    using len_capacity_bound[OF ex_b0_init, of "[ex_ep3]" ex_ep3] t ex_b0_init by simp
qed

subsection \<open>Indexing and slicing\<close>

lemma np_getitem_ok: "0 \<le> i \<Longrightarrow> i < int (length xs) \<Longrightarrow> np_getitem xs i = Inr (xs ! nat i)"
  by (simp add: np_getitem_def)

lemma np_take_ok:
  "\<forall>i\<in>set ids. 0 \<le> i \<and> i < int (length xs) \<Longrightarrow>
   np_take xs ids = Inr (map (\<lambda>i. xs ! nat i) ids)"
  by (induction ids) (simp_all add: np_getitem_ok)

lemma py_slice_inner:
  "0 \<le> lo \<Longrightarrow> lo \<le> hi \<Longrightarrow> hi \<le> int (length xs) \<Longrightarrow>
   py_slice xs lo hi = take (nat (hi - lo)) (drop (nat lo) xs)"
  by (simp add: py_slice_def slice_bound_def Let_def min_def)

lemma py_slice_empty: "0 \<le> hi \<Longrightarrow> hi \<le> lo \<Longrightarrow> py_slice xs lo hi = []"
  by (simp add: py_slice_def slice_bound_def Let_def min_def)

lemma py_slice_nth_mem:
  assumes "0 \<le> lo" "lo \<le> j" "j < hi" "hi \<le> int (length xs)"
  shows "xs ! nat j \<in> set (py_slice xs lo hi)"
proof -
  have s: "py_slice xs lo hi = take (nat (hi - lo)) (drop (nat lo) xs)"
    using assms by (intro py_slice_inner) simp_all
  have "nat (j - lo) < length (py_slice xs lo hi)"
    using assms unfolding s by simp
  moreover have "nat lo + nat (j - lo) = nat j"
    using assms by linarith
  then have "py_slice xs lo hi ! nat (j - lo) = xs ! nat j"
    using assms unfolding s by simp
  ultimately show ?thesis by (metis nth_mem)
qed

lemma py_slice_set:
  assumes "0 \<le> lo" "lo \<le> hi" "hi \<le> int (length xs)" "x \<in> set (py_slice xs lo hi)"
  shows "\<exists>j. lo \<le> j \<and> j < hi \<and> x = xs ! nat j"
proof -
  have s: "py_slice xs lo hi = take (nat (hi - lo)) (drop (nat lo) xs)"
    using assms by (intro py_slice_inner) simp_all
  from assms(4) obtain k where k: "k < length (py_slice xs lo hi)" "x = py_slice xs lo hi ! k"
    by (metis in_set_conv_nth)
  have kl: "int k < hi - lo" using k(1) assms unfolding s by simp
  have "x = xs ! (nat lo + k)" using k assms unfolding s by simp
  also have "nat lo + k = nat (lo + int k)" using assms by (simp add: nat_add_distrib)
  finally have "x = xs ! nat (lo + int k)" .
  with kl show ?thesis by (intro exI[of _ "lo + int k"]) simp
qed

lemma walk_back_run:
  assumes "0 < max_size b" "length (dones b) = nat (max_size b)"
    and "\<forall>i\<in>set js. (idx - i - 1) mod max_size b < len b \<and>
                     \<not> dones b ! nat ((idx - i - 1) mod max_size b)"
  shows "walk_back b idx js acc = Inr (acc @ map (\<lambda>i. (idx - i - 1) mod max_size b) js)"
  using assms(3)
proof (induction js arbitrary: acc)
  case Nil
  then show ?case by simp
next
  case (Cons i js)
  have "0 \<le> (idx - i - 1) mod max_size b" "(idx - i - 1) mod max_size b < max_size b"
    using assms(1) by simp_all
  then have g: "np_getitem (dones b) ((idx - i - 1) mod max_size b)
        = Inr (dones b ! nat ((idx - i - 1) mod max_size b))"
    using assms(2) by (intro np_getitem_ok) simp_all
  show ?case
    using Cons.prems assms(1) by (simp add: py_mod_def g Cons.IH)
qed

lemma walk_back_stop:
  assumes "0 < max_size b" "length (dones b) = nat (max_size b)"
    and "\<forall>i\<in>set js. (idx - i - 1) mod max_size b < len b \<and>
                     \<not> dones b ! nat ((idx - i - 1) mod max_size b)"
    and "len b \<le> (idx - k - 1) mod max_size b \<or> dones b ! nat ((idx - k - 1) mod max_size b)"
  shows "walk_back b idx (js @ k # rest) acc = Inr (acc @ map (\<lambda>i. (idx - i - 1) mod max_size b) js)"
  using assms(3)
proof (induction js arbitrary: acc)
  case Nil
  have "0 \<le> (idx - k - 1) mod max_size b" "(idx - k - 1) mod max_size b < max_size b"
    using assms(1) by simp_all
  then have g: "np_getitem (dones b) ((idx - k - 1) mod max_size b)
        = Inr (dones b ! nat ((idx - k - 1) mod max_size b))"
    using assms(2) by (intro np_getitem_ok) simp_all
  show ?case using assms(1,4) by (auto simp: py_mod_def g)
next
  case (Cons i js)
  have "0 \<le> (idx - i - 1) mod max_size b" "(idx - i - 1) mod max_size b < max_size b"
    using assms(1) by simp_all
  then have g: "np_getitem (dones b) ((idx - i - 1) mod max_size b)
        = Inr (dones b ! nat ((idx - i - 1) mod max_size b))"
    using assms(2) by (intro np_getitem_ok) simp_all
  show ?case
    using Cons.prems assms(1) by (simp add: py_mod_def g Cons.IH)
qed

lemma walk_back_total:
  assumes "0 < max_size b" "length (dones b) = nat (max_size b)"
  shows "\<exists>k\<le>length js. walk_back b idx js acc
           = Inr (acc @ map (\<lambda>i. (idx - i - 1) mod max_size b) (take k js))"
proof (induction js arbitrary: acc)
  case Nil
  then show ?case by simp
next
  case (Cons i js)
  let ?n = "(idx - i - 1) mod max_size b"
  have "0 \<le> ?n" "?n < max_size b"
    using assms(1) by simp_all
  then have g: "np_getitem (dones b) ?n = Inr (dones b ! nat ?n)"
    using assms(2) by (intro np_getitem_ok) simp_all
  show ?case
  proof (cases "len b \<le> ?n \<or> dones b ! nat ?n")
    case True
    then have "walk_back b idx (i # js) acc = Inr (acc @ map (\<lambda>i. (idx - i - 1) mod max_size b) (take 0 (i # js)))"
      using assms(1) by (auto simp: py_mod_def g)
    then show ?thesis by blast
  next
    case False
    obtain k where k: "k \<le> length js"
      "walk_back b idx js (acc @ [?n]) = Inr ((acc @ [?n]) @ map (\<lambda>i. (idx - i - 1) mod max_size b) (take k js))"
      using Cons.IH[of "acc @ [?n]"] by blast
    have "walk_back b idx (i # js) acc = Inr (acc @ map (\<lambda>i. (idx - i - 1) mod max_size b) (take (Suc k) (i # js)))"
      using False assms(1) k(2) by (simp add: py_mod_def g)
    with k(1) show ?thesis by (metis Suc_le_mono length_Cons)
  qed
qed

subsection \<open>The two paths of \<^verbatim>\<open>get_state\<close>\<close>

lemma np_set_tail_ok:
  assumes "length vals = k" "1 \<le> k" "k \<le> length state"
  shows "np_set_tail state (int k) vals = Inr (take (length state - k) state @ vals)"
proof -
  have a: "slice_bound (int (length state)) (- int k) = int (length state) - int k"
    using assms by (simp add: slice_bound_def)
  have b: "nat (int (length state) - (int (length state) - int k)) = k" by simp
  have c: "nat (int (length state) - int k) = length state - k" by simp
  show ?thesis
    unfolding np_set_tail_def Let_def a b c using assms(1) by (simp add: broadcast_rows_def)
qed

lemma get_state_padded:
  assumes obs: "length (observations b) = nat (max_size b)"
    and h: "1 \<le> h"
    and trig: "idx - h + 1 < 0 \<or> list_ex (\<lambda>d. d) (py_slice (dones b) (idx - h + 1) (idx + 1))"
    and wb: "walk_back b idx (py_range (h - 1)) [idx] = Inr ids"
    and rng: "\<forall>i\<in>set ids. 0 \<le> i \<and> i < max_size b"
    and len: "1 \<le> length ids" "length ids \<le> nat h"
  shows "get_state b idx h
         = Inr (replicate (nat h - length ids) 0 @ map (\<lambda>i. observations b ! nat i) (rev ids))"
proof -
  have z: "np_zeros h = Inr (replicate (nat h) (0::'a))"
    using h by (simp add: np_zeros_def)
  have t: "np_take (observations b) (rev ids) = Inr (map (\<lambda>i. observations b ! nat i) (rev ids))"
    using rng obs by (intro np_take_ok) auto
  have "np_set_tail (replicate (nat h) (0::'a)) (int (length ids))
              (map (\<lambda>i. observations b ! nat i) (rev ids))
           = Inr (take (length (replicate (nat h) (0::'a)) - length ids) (replicate (nat h) 0)
                  @ map (\<lambda>i. observations b ! nat i) (rev ids))"
    using len by (intro np_set_tail_ok) simp_all
  then have s: "np_set_tail (replicate (nat h) (0::'a)) (int (length ids))
              (map (\<lambda>i. observations b ! nat i) (rev ids))
           = Inr (replicate (nat h - length ids) 0 @ map (\<lambda>i. observations b ! nat i) (rev ids))"
    by simp
  show ?thesis
    unfolding get_state_def Let_def using trig by (simp add: z wb t s)
qed

lemma get_state_fast:
  assumes "0 \<le> idx - h + 1"
    and "\<not> list_ex (\<lambda>d. d) (py_slice (dones b) (idx - h + 1) (idx + 1))"
  shows "get_state b idx h = Inr (py_slice (observations b) (idx - h + 1) (idx + 1))"
  using assms unfolding get_state_def Let_def by simp

lemma py_range_set: "i \<in> set (py_range n) \<longleftrightarrow> 0 \<le> i \<and> i < n"
  unfolding py_range_def set_map by (auto simp: image_iff intro: bexI[of _ "nat i"])

lemma py_range_length: "length (py_range n) = nat n"
  by (simp add: py_range_def)

lemma get_state_total:
  assumes inv: "buffer_inv b" and idx: "0 \<le> idx" "idx < max_size b"
  shows "\<exists>s. get_state b idx h = Inr s"
proof (cases "idx - h + 1 < 0 \<or> list_ex (\<lambda>d. d) (py_slice (dones b) (idx - h + 1) (idx + 1))")
  case False
  then show ?thesis by (simp add: get_state_fast)
next
  case True
  have h: "1 \<le> h"
  proof (rule ccontr)
    assume "\<not> 1 \<le> h"
    then have "idx + 1 \<le> idx - h + 1" "0 \<le> idx + 1" using idx by simp_all
    then have "py_slice (dones b) (idx - h + 1) (idx + 1) = []" by (intro py_slice_empty)
    with True idx \<open>\<not> 1 \<le> h\<close> show False by simp
  qed
  have m: "0 < max_size b" using idx by simp
  have d: "length (dones b) = nat (max_size b)" using inv by (simp add: buffer_inv_def)
  obtain k where k: "k \<le> length (py_range (h - 1))"
    "walk_back b idx (py_range (h - 1)) [idx]
       = Inr ([idx] @ map (\<lambda>i. (idx - i - 1) mod max_size b) (take k (py_range (h - 1))))"
    using walk_back_total[OF m d, of "py_range (h - 1)" idx "[idx]"] by blast
  let ?ids = "[idx] @ map (\<lambda>i. (idx - i - 1) mod max_size b) (take k (py_range (h - 1)))"
  have r: "\<forall>i\<in>set ?ids. 0 \<le> i \<and> i < max_size b" using idx m by auto
  have l: "1 \<le> length ?ids" "length ?ids \<le> nat h"
    using k(1) h by (simp_all add: py_range_length)
  show ?thesis
    using get_state_padded[OF _ h True k(2) r l] inv by (simp add: buffer_inv_def)
qed

subsection \<open>Zero padding\<close>

lemma upt_split: "a < c \<Longrightarrow> [0..<c] = [0..<a] @ a # [Suc a..<c]"
  by (metis le0 le_add_diff_inverse less_imp_le_nat upt_add_eq_append upt_conv_Cons)

lemma py_range_split:
  assumes "0 \<le> k" "k < n"
  shows "py_range n = py_range k @ k # map int [Suc (nat k)..<nat n]"
proof -
  have "nat k < nat n" using assms by simp
  from upt_split[OF this] show ?thesis using assms(1) by (simp add: py_range_def)
qed

lemma countdown_nth:
  "p < Suc (nat n) \<Longrightarrow> (idx # map (\<lambda>i. idx - i - 1) (py_range n)) ! p = idx - int p"
  by (cases p) (simp_all add: py_range_def)

lemma window_values:
  assumes s: "0 \<le> idx - int N" and N: "idx < int (length xs)"
  shows "map (\<lambda>i. xs ! nat i) (rev (idx # map (\<lambda>i. idx - i - 1) (py_range (int N))))
         = take (Suc N) (drop (nat (idx - int N)) xs)"
proof (rule nth_equalityI)
  show "length (map (\<lambda>i. xs ! nat i) (rev (idx # map (\<lambda>i. idx - i - 1) (py_range (int N)))))
        = length (take (Suc N) (drop (nat (idx - int N)) xs))"
    using s N by (simp add: py_range_length)
next
  fix k assume "k < length (map (\<lambda>i. xs ! nat i) (rev (idx # map (\<lambda>i. idx - i - 1) (py_range (int N)))))"
  then have k: "k < Suc N" by (simp add: py_range_length)
  let ?ids = "idx # map (\<lambda>i. idx - i - 1) (py_range (int N))"
  have l: "length ?ids = Suc N" by (simp add: py_range_length)
  have "k < length ?ids" using k unfolding l .
  from rev_nth[OF this] have "rev ?ids ! k = ?ids ! (length ?ids - Suc k)" .
  then have "rev ?ids ! k = ?ids ! (N - k)"
    by (simp only: l diff_Suc_Suc)
  also have "\<dots> = idx - int (N - k)"
    using k by (intro countdown_nth) simp
  finally have r: "rev ?ids ! k = idx - int (N - k)" .
  have e: "nat (idx - int (N - k)) = nat (idx - int N) + k"
    using k s by linarith
  have "map (\<lambda>i. xs ! nat i) (rev ?ids) ! k = xs ! nat (rev ?ids ! k)"
    using k l by (subst nth_map) simp_all
  also have "\<dots> = xs ! (nat (idx - int N) + k)" by (simp only: r e)
  also have "\<dots> = take (Suc N) (drop (nat (idx - int N)) xs) ! k"
    using k s N by simp
  finally show "map (\<lambda>i. xs ! nat i) (rev ?ids) ! k = take (Suc N) (drop (nat (idx - int N)) xs) ! k" .
qed

lemma get_state_after_done:
  assumes inv: "buffer_inv b" and idx: "0 < idx" "idx < len b"
    and d: "dones b ! nat (idx - 1)" and h: "1 < h"
  shows "get_state b idx h = Inr (replicate (nat h - 1) 0 @ [observations b ! nat idx])"
proof -
  have m: "0 < max_size b" "idx < max_size b" "length (dones b) = nat (max_size b)"
    "length (observations b) = nat (max_size b)"
    using inv idx by (simp_all add: buffer_inv_def)
  have trig: "idx - h + 1 < 0 \<or> list_ex (\<lambda>d. d) (py_slice (dones b) (idx - h + 1) (idx + 1))"
  proof (cases "idx - h + 1 < 0")
    case False
    have "dones b ! nat (idx - 1) \<in> set (py_slice (dones b) (idx - h + 1) (idx + 1))"
      using False h m idx by (intro py_slice_nth_mem) simp_all
    with d show ?thesis unfolding list_ex_iff by blast
  qed simp
  have e: "(idx - 1) mod max_size b = idx - 1"
    using idx m by simp
  have r: "py_range (h - 1) = [] @ 0 # map int [Suc (nat 0)..<nat (h - 1)]"
    using py_range_split[of 0 "h - 1"] h by (simp add: py_range_def)
  have wb: "walk_back b idx (py_range (h - 1)) [idx] = Inr ([idx] @ map (\<lambda>i. (idx - i - 1) mod max_size b) [])"
    unfolding r using d by (intro walk_back_stop m) (simp_all add: e)
  show ?thesis
    using get_state_padded[OF m(4) _ trig wb] h idx m by simp
qed

text \<open>
  Claim C7. Let fewer than capacity steps be in the buffer (\<open>len < max_size\<close>, so
  nothing has wrapped), \<open>idx\<close> a filled slot with \<open>idx < h - 1\<close>, and no done flag set
  in the slots 0 to \<open>idx\<close>. Then \<^verbatim>\<open>get_state(idx, h)\<close> returns \<open>h - 1 - idx\<close> zero
  slots followed by the stored observations of the slots 0 to \<open>idx\<close> in that order.
\<close>

theorem get_state_zero_padding:
  assumes inv: "buffer_inv b" and nowrap: "len b < max_size b"
    and idx: "0 \<le> idx" "idx < len b" and short: "idx < h - 1"
    and nd: "\<forall>j\<in>{0..idx}. \<not> dones b ! nat j"
  shows "get_state b idx h
         = Inr (replicate (nat (h - 1 - idx)) 0 @ take (nat (idx + 1)) (observations b))"
proof -
  have m: "0 < max_size b" "idx < max_size b" "length (dones b) = nat (max_size b)"
    "length (observations b) = nat (max_size b)"
    using inv idx nowrap by (simp_all add: buffer_inv_def)
  have trig: "idx - h + 1 < 0 \<or> list_ex (\<lambda>d. d) (py_slice (dones b) (idx - h + 1) (idx + 1))"
    using short by simp
  have r: "py_range (h - 1) = py_range idx @ idx # map int [Suc (nat idx)..<nat (h - 1)]"
    using idx short by (intro py_range_split) simp_all
  have step: "(idx - i - 1) mod max_size b = idx - i - 1" if "i \<in> set (py_range idx)" for i
    using that m idx unfolding py_range_set by simp
  have cont: "\<forall>i\<in>set (py_range idx). (idx - i - 1) mod max_size b < len b \<and>
                     \<not> dones b ! nat ((idx - i - 1) mod max_size b)"
  proof
    fix i assume i: "i \<in> set (py_range idx)"
    then have "0 \<le> idx - i - 1" "idx - i - 1 \<le> idx" unfolding py_range_set by simp_all
    then have "\<not> dones b ! nat (idx - i - 1)" using nd by simp
    then show "(idx - i - 1) mod max_size b < len b \<and>
                     \<not> dones b ! nat ((idx - i - 1) mod max_size b)"
      using step[OF i] i idx unfolding py_range_set by simp
  qed
  have "(idx - idx - 1) mod max_size b = max_size b - 1"
    using m by (simp add: zmod_minus1)
  then have stop: "len b \<le> (idx - idx - 1) mod max_size b \<or> dones b ! nat ((idx - idx - 1) mod max_size b)"
    using nowrap by simp
  have "walk_back b idx (py_range (h - 1)) [idx]
        = Inr ([idx] @ map (\<lambda>i. (idx - i - 1) mod max_size b) (py_range idx))"
    unfolding r by (rule walk_back_stop[OF m(1) m(3) cont stop])
  also have "map (\<lambda>i. (idx - i - 1) mod max_size b) (py_range idx)
        = map (\<lambda>i. idx - i - 1) (py_range idx)"
    by (rule map_cong) (simp_all add: step)
  finally have wb: "walk_back b idx (py_range (h - 1)) [idx]
        = Inr (idx # map (\<lambda>i. idx - i - 1) (py_range idx))" by simp
  let ?ids = "idx # map (\<lambda>i. idx - i - 1) (py_range idx)"
  have rng: "\<forall>i\<in>set ?ids. 0 \<le> i \<and> i < max_size b"
    using idx m by (auto simp: py_range_set)
  have l: "length ?ids = Suc (nat idx)" by (simp add: py_range_length)
  have v: "map (\<lambda>i. observations b ! nat i) (rev (idx # map (\<lambda>i. idx - i - 1) (py_range (int (nat idx)))))
         = take (Suc (nat idx)) (drop (nat (idx - int (nat idx))) (observations b))"
    using idx m by (intro window_values) simp_all
  have "get_state b idx h = Inr (replicate (nat h - length ?ids) 0 @ map (\<lambda>i. observations b ! nat i) (rev ?ids))"
    using short idx by (intro get_state_padded[OF m(4) _ trig wb rng]) (simp_all add: py_range_length)
  also have "nat h - length ?ids = nat (h - 1 - idx)" unfolding l using idx short by linarith
  also have "map (\<lambda>i. observations b ! nat i) (rev ?ids) = take (nat (idx + 1)) (observations b)"
    using v idx by (simp add: nat_add_distrib)
  finally show ?thesis .
qed

subsection \<open>Episode boundaries\<close>

lemma get_state_no_boundary:
  assumes inv: "buffer_inv b" and idx: "0 \<le> idx" "idx < len b" and h: "1 \<le> h"
    and s: "0 \<le> idx - h + 1"
    and nd: "\<forall>j. idx - h + 1 \<le> j \<and> j < idx \<longrightarrow> \<not> dones b ! nat j"
  shows "get_state b idx h = Inr (py_slice (observations b) (idx - h + 1) (idx + 1))"
proof (cases "list_ex (\<lambda>d. d) (py_slice (dones b) (idx - h + 1) (idx + 1))")
  case False
  then show ?thesis using s by (simp add: get_state_fast)
next
  case True
  have m: "0 < max_size b" "idx < max_size b" "length (dones b) = nat (max_size b)"
    "length (observations b) = nat (max_size b)"
    using inv idx by (simp_all add: buffer_inv_def)
  have step: "(idx - i - 1) mod max_size b = idx - i - 1" if "i \<in> set (py_range (h - 1))" for i
    using that m idx s unfolding py_range_set by simp
  have cont: "\<forall>i\<in>set (py_range (h - 1)). (idx - i - 1) mod max_size b < len b \<and>
                     \<not> dones b ! nat ((idx - i - 1) mod max_size b)"
  proof
    fix i assume i: "i \<in> set (py_range (h - 1))"
    then have "idx - h + 1 \<le> idx - i - 1" "idx - i - 1 < idx" unfolding py_range_set by simp_all
    then have "\<not> dones b ! nat (idx - i - 1)" using nd by simp
    then show "(idx - i - 1) mod max_size b < len b \<and>
                     \<not> dones b ! nat ((idx - i - 1) mod max_size b)"
      using step[OF i] i idx unfolding py_range_set by simp
  qed
  have "walk_back b idx (py_range (h - 1)) [idx]
        = Inr ([idx] @ map (\<lambda>i. (idx - i - 1) mod max_size b) (py_range (h - 1)))"
    by (rule walk_back_run[OF m(1) m(3) cont])
  also have "map (\<lambda>i. (idx - i - 1) mod max_size b) (py_range (h - 1))
        = map (\<lambda>i. idx - i - 1) (py_range (h - 1))"
    by (rule map_cong) (simp_all add: step)
  finally have wb: "walk_back b idx (py_range (h - 1)) [idx]
        = Inr (idx # map (\<lambda>i. idx - i - 1) (py_range (h - 1)))" by simp
  let ?ids = "idx # map (\<lambda>i. idx - i - 1) (py_range (h - 1))"
  have rng: "\<forall>i\<in>set ?ids. 0 \<le> i \<and> i < max_size b"
    using idx m s by (auto simp: py_range_set)
  have l: "length ?ids = nat h" using h by (simp add: py_range_length)
  have hn: "int (nat (h - 1)) = h - 1" using h by simp
  have v: "map (\<lambda>i. observations b ! nat i) (rev (idx # map (\<lambda>i. idx - i - 1) (py_range (int (nat (h - 1))))))
         = take (Suc (nat (h - 1))) (drop (nat (idx - int (nat (h - 1)))) (observations b))"
    using idx m s h by (intro window_values) simp_all
  have sl: "py_slice (observations b) (idx - h + 1) (idx + 1)
        = take (nat (idx + 1 - (idx - h + 1))) (drop (nat (idx - h + 1)) (observations b))"
    using s idx m h by (intro py_slice_inner) simp_all
  have "get_state b idx h = Inr (replicate (nat h - length ?ids) 0 @ map (\<lambda>i. observations b ! nat i) (rev ?ids))"
    using h True by (intro get_state_padded[OF m(4) _ _ wb rng]) (simp_all add: py_range_length)
  also have "nat h - length ?ids = 0" unfolding l by simp
  also have "map (\<lambda>i. observations b ! nat i) (rev ?ids)
        = take (Suc (nat (h - 1))) (drop (nat (idx - (h - 1))) (observations b))"
    using v unfolding hn .
  also have "Suc (nat (h - 1)) = nat (idx + 1 - (idx - h + 1))" using h by linarith
  also have "idx - (h - 1) = idx - h + 1" by simp
  finally show ?thesis unfolding sl by simp
qed

lemma walk_back_update:
  assumes m: "0 < max_size b" "length (dones b) = nat (max_size b)"
    and idx: "0 \<le> idx" "idx < max_size b"
    and js: "\<forall>i\<in>set js. 0 \<le> i \<and> i + 1 < max_size b"
  shows "walk_back (b\<lparr>dones := (dones b)[nat idx := v]\<rparr>) idx js acc = walk_back b idx js acc"
  using js
proof (induction js arbitrary: acc)
  case Nil
  then show ?case by simp
next
  case (Cons i js)
  let ?n = "(idx - i - 1) mod max_size b"
  have i: "0 \<le> i" "i + 1 < max_size b" using Cons.prems by simp_all
  have n: "0 \<le> ?n" "?n < max_size b" using m(1) by simp_all
  have ne: "?n \<noteq> idx"
  proof
    assume "?n = idx"
    then have "(idx - i - 1) mod max_size b = idx mod max_size b" using idx by simp
    then have "max_size b dvd (idx - i - 1) - idx" by (simp add: mod_eq_dvd_iff)
    then have "max_size b dvd - (i + 1)" by (simp add: algebra_simps)
    then have "max_size b dvd i + 1" by (simp only: dvd_minus_iff)
    then have "max_size b \<le> i + 1" using i by (intro zdvd_imp_le) simp_all
    with i show False by simp
  qed
  then have "nat ?n \<noteq> nat idx" using n(1) idx(1) by (simp only: nat_eq_iff2 int_nat_eq if_True)
  then have g: "np_getitem ((dones b)[nat idx := v]) ?n = np_getitem (dones b) ?n"
    using n m by (simp add: np_getitem_def)
  have p: "py_mod (idx - i - 1) (max_size b) = Inr ?n" using m(1) by (simp add: py_mod_def)
  have ih: "walk_back (b\<lparr>dones := (dones b)[nat idx := v]\<rparr>) idx js acc' = walk_back b idx js acc'"
    for acc' using Cons.prems by (intro Cons.IH) simp
  show ?case
    by (simp add: p g ih cong: if_cong)
qed

lemma buffer_inv_dones_update:
  "buffer_inv b \<Longrightarrow> buffer_inv (b\<lparr>dones := (dones b)[k := v]\<rparr>)"
  by (simp add: buffer_inv_def)

lemma get_state_own_done_irrelevant:
  assumes inv: "buffer_inv b" and idx: "0 \<le> idx" "idx < len b" and hm: "h \<le> max_size b"
  shows "get_state (b\<lparr>dones := (dones b)[nat idx := v]\<rparr>) idx h = get_state b idx h"
proof -
  let ?b = "b\<lparr>dones := (dones b)[nat idx := v]\<rparr>"
  have inv': "buffer_inv ?b" using inv by (rule buffer_inv_dones_update)
  have m: "0 < max_size b" "idx < max_size b" "length (dones b) = nat (max_size b)"
    "length (observations b) = nat (max_size b)"
    using inv idx by (simp_all add: buffer_inv_def)
  show ?thesis
  proof (cases "1 \<le> h")
    case False
    then have "idx + 1 \<le> idx - h + 1" "0 \<le> idx + 1" using idx by simp_all
    then have "py_slice (dones b) (idx - h + 1) (idx + 1) = []"
      "py_slice (dones ?b) (idx - h + 1) (idx + 1) = []" by (simp_all add: py_slice_empty)
    then have "get_state b idx h = Inr (py_slice (observations b) (idx - h + 1) (idx + 1))"
      "get_state ?b idx h = Inr (py_slice (observations ?b) (idx - h + 1) (idx + 1))"
      using idx False by (simp_all add: get_state_fast)
    then show ?thesis by simp
  next
    case h: True
    show ?thesis
    proof (cases "0 \<le> idx - h + 1 \<and> (\<forall>j. idx - h + 1 \<le> j \<and> j < idx \<longrightarrow> \<not> dones b ! nat j)")
      case True
      then have s: "0 \<le> idx - h + 1" and nd: "\<forall>j. idx - h + 1 \<le> j \<and> j < idx \<longrightarrow> \<not> dones b ! nat j"
        by simp_all
      have nd': "\<forall>j. idx - h + 1 \<le> j \<and> j < idx \<longrightarrow> \<not> dones ?b ! nat j"
      proof (intro allI impI)
        fix j assume j: "idx - h + 1 \<le> j \<and> j < idx"
        then have "nat j \<noteq> nat idx" using s idx by linarith
        then show "\<not> dones ?b ! nat j" using nd j by simp
      qed
      have "get_state ?b idx h = Inr (py_slice (observations ?b) (idx - h + 1) (idx + 1))"
        using idx h s nd' by (intro get_state_no_boundary[OF inv']) simp_all
      moreover have "get_state b idx h = Inr (py_slice (observations b) (idx - h + 1) (idx + 1))"
        using idx h s nd by (intro get_state_no_boundary[OF inv]) simp_all
      ultimately show ?thesis by simp
    next
      case False
      have trig: "idx - h + 1 < 0 \<or> list_ex (\<lambda>d. d) (py_slice (dones b) (idx - h + 1) (idx + 1))"
       and trig': "idx - h + 1 < 0 \<or> list_ex (\<lambda>d. d) (py_slice (dones ?b) (idx - h + 1) (idx + 1))"
      proof -
        show "idx - h + 1 < 0 \<or> list_ex (\<lambda>d. d) (py_slice (dones b) (idx - h + 1) (idx + 1))"
        proof (cases "idx - h + 1 < 0")
          case s: False
          with False obtain j where j: "idx - h + 1 \<le> j" "j < idx" "dones b ! nat j" by auto
          have "dones b ! nat j \<in> set (py_slice (dones b) (idx - h + 1) (idx + 1))"
            using s j m by (intro py_slice_nth_mem) simp_all
          with j show ?thesis unfolding list_ex_iff by blast
        qed simp
        show "idx - h + 1 < 0 \<or> list_ex (\<lambda>d. d) (py_slice (dones ?b) (idx - h + 1) (idx + 1))"
        proof (cases "idx - h + 1 < 0")
          case s: False
          with False obtain j where j: "idx - h + 1 \<le> j" "j < idx" "dones b ! nat j" by auto
          have "nat j \<noteq> nat idx" using s j idx by linarith
          then have d': "dones ?b ! nat j" using j by simp
          have "dones ?b ! nat j \<in> set (py_slice (dones ?b) (idx - h + 1) (idx + 1))"
            using s j m by (intro py_slice_nth_mem) simp_all
          with d' show ?thesis unfolding list_ex_iff by blast
        qed simp
      qed
      obtain k where k: "k \<le> length (py_range (h - 1))"
        "walk_back b idx (py_range (h - 1)) [idx]
           = Inr ([idx] @ map (\<lambda>i. (idx - i - 1) mod max_size b) (take k (py_range (h - 1))))"
        using walk_back_total[OF m(1) m(3), of "py_range (h - 1)" idx "[idx]"] by blast
      let ?ids = "[idx] @ map (\<lambda>i. (idx - i - 1) mod max_size b) (take k (py_range (h - 1)))"
      have "\<forall>i\<in>set (py_range (h - 1)). 0 \<le> i \<and> i + 1 < max_size b"
        using hm by (auto simp: py_range_set)
      from walk_back_update[OF m(1) m(3) idx(1) m(2) this]
      have k': "walk_back ?b idx (py_range (h - 1)) [idx] = Inr ?ids" using k(2) by simp
      have r: "\<forall>i\<in>set ?ids. 0 \<le> i \<and> i < max_size b" using idx m by auto
      have l: "1 \<le> length ?ids" "length ?ids \<le> nat h"
        using k(1) h by (simp_all add: py_range_length)
      have "get_state b idx h = Inr (replicate (nat h - length ?ids) 0 @ map (\<lambda>i. observations b ! nat i) (rev ?ids))"
        by (rule get_state_padded[OF m(4) h trig k(2) r l])
      moreover have "get_state ?b idx h = Inr (replicate (nat h - length ?ids) 0 @ map (\<lambda>i. observations ?b ! nat i) (rev ?ids))"
        using m(4) h trig' k' r l by (intro get_state_padded) simp_all
      ultimately show ?thesis by simp
    qed
  qed
qed

text \<open>
  Claim C2, as the code has it. For a filled slot \<open>idx\<close>: if \<open>idx > 0\<close>, the done flag
  of slot \<open>idx - 1\<close> is set and \<open>h > 1\<close>, then \<^verbatim>\<open>get_state(idx, h)\<close> is \<open>h - 1\<close> zero
  slots followed by the observation of \<open>idx\<close>, whatever \<open>h\<close> is; and for every history
  length \<open>h\<close> up to the capacity the state does not depend on the done flag of slot
  \<open>idx\<close> itself: setting it to any value \<open>v\<close> leaves \<^verbatim>\<open>get_state(idx, h)\<close> unchanged.
\<close>

theorem get_state_episode_boundary:
  assumes inv: "buffer_inv b" and idx: "0 \<le> idx" "idx < len b"
  shows "(0 < idx \<and> dones b ! nat (idx - 1) \<and> 1 < h \<longrightarrow>
            get_state b idx h = Inr (replicate (nat h - 1) 0 @ [observations b ! nat idx])) \<and>
         (h \<le> max_size b \<longrightarrow>
            get_state (b\<lparr>dones := (dones b)[nat idx := v]\<rparr>) idx h = get_state b idx h)"
  using get_state_after_done[OF inv _ idx(2), of h]
    get_state_own_done_irrelevant[OF inv idx, of h v] by blast

subsection \<open>The n-step return\<close>

lemma reward_loop_no_done:
  assumes "length (rewards b) = N" "length (dones b) = N"
    and "\<forall>i\<in>set ids. 0 \<le> i \<and> i < int N \<and> \<not> dones b ! nat i"
  shows "reward_loop b g (enumerate k ids) cum d0
         = Inr (cum + (\<Sum>j<length ids. rewards b ! nat (ids ! j) * g ^ (k + j)),
                if ids = [] then d0 else Some False)"
  using assms(3)
proof (induction ids arbitrary: k cum d0)
  case Nil
  then show ?case by simp
next
  case (Cons i ids)
  have i: "0 \<le> i" "i < int N" "\<not> dones b ! nat i" using Cons.prems by simp_all
  have gr: "np_getitem (rewards b) i = Inr (rewards b ! nat i)"
    and gd: "np_getitem (dones b) i = Inr (dones b ! nat i)"
    using i assms(1,2) by (simp_all add: np_getitem_ok)
  have ih: "reward_loop b g (enumerate (Suc k) ids) c d
         = Inr (c + (\<Sum>j<length ids. rewards b ! nat (ids ! j) * g ^ (Suc k + j)),
                if ids = [] then d else Some False)" for c d
    using Cons.prems by (intro Cons.IH) simp
  have "(\<Sum>j<length (i # ids). rewards b ! nat ((i # ids) ! j) * g ^ (k + j))
        = rewards b ! nat i * g ^ k + (\<Sum>j<length ids. rewards b ! nat (ids ! j) * g ^ (Suc k + j))"
    unfolding length_Cons sum.lessThan_Suc_shift by simp
  then show ?case
    using i(3) by (simp add: gr gd ih add.assoc del: sum.lessThan_Suc power_Suc)
qed

lemma reward_loop_first_done:
  assumes "length (rewards b) = N" "length (dones b) = N"
    and "\<forall>i\<in>set ids. 0 \<le> i \<and> i < int N"
    and "p < length ids" "dones b ! nat (ids ! p)" "\<forall>j<p. \<not> dones b ! nat (ids ! j)"
  shows "reward_loop b g (enumerate k ids) cum d0
         = Inr (cum + (\<Sum>j\<le>p. rewards b ! nat (ids ! j) * g ^ (k + j)), Some True)"
  using assms(3-)
proof (induction ids arbitrary: k cum d0 p)
  case Nil
  then show ?case by simp
next
  case (Cons i ids)
  have i: "0 \<le> i" "i < int N" using Cons.prems by simp_all
  have gr: "np_getitem (rewards b) i = Inr (rewards b ! nat i)"
    and gd: "np_getitem (dones b) i = Inr (dones b ! nat i)"
    using i assms(1,2) by (simp_all add: np_getitem_ok)
  show ?case
  proof (cases p)
    case 0
    then show ?thesis using Cons.prems by (simp add: gr gd)
  next
    case (Suc q)
    have nd: "\<not> dones b ! nat i" using Cons.prems(4) Suc by auto
    have q: "q < length ids" "dones b ! nat (ids ! q)" "\<forall>j<q. \<not> dones b ! nat (ids ! j)"
      using Cons.prems Suc by auto
    have ih: "reward_loop b g (enumerate (Suc k) ids) c d
         = Inr (c + (\<Sum>j\<le>q. rewards b ! nat (ids ! j) * g ^ (Suc k + j)), Some True)" for c d
      using Cons.prems(1) q by (intro Cons.IH) simp_all
    have "(\<Sum>j\<le>Suc q. rewards b ! nat ((i # ids) ! j) * g ^ (k + j))
        = rewards b ! nat i * g ^ k + (\<Sum>j\<le>q. rewards b ! nat (ids ! j) * g ^ (Suc k + j))"
      unfolding sum.atMost_Suc_shift by simp
    then show ?thesis
      using nd unfolding Suc by (simp add: gr gd ih add.assoc del: sum.atMost_Suc power_Suc)
  qed
qed

lemma window_indices:
  "0 < m \<Longrightarrow> 0 \<le> n \<Longrightarrow>
   map (\<lambda>i. np_mod i m) (np_arange idx (idx + n)) = map (\<lambda>k. (idx + int k) mod m) [0..<nat n]"
  by (simp add: np_arange_def np_mod_def)

lemma get_transition_n_step_eq:
  assumes inv: "buffer_inv b" and idx: "0 \<le> idx" "idx < max_size b" and n: "1 \<le> n"
    and st: "get_state b idx h = Inr state"
    and ns: "get_state b ((idx + n) mod max_size b) h = Inr next_state"
    and rl: "reward_loop b g (enumerate 0 (map (\<lambda>k. (idx + int k) mod max_size b) [0..<nat n])) 0 None
             = Inr (ret, Some t)"
  shows "get_transition_n_step b idx h n g = Inr (state, actions b ! nat idx, ret, next_state, t)"
proof -
  have m: "0 < max_size b" "idx < max_size b" "length (actions b) = nat (max_size b)"
    using inv idx by (simp_all add: buffer_inv_def)
  have p: "py_mod (idx + n) (max_size b) = Inr ((idx + n) mod max_size b)"
    using m by (simp add: py_mod_def)
  have a: "np_getitem (actions b) idx = Inr (actions b ! nat idx)"
    using idx m by (simp add: np_getitem_ok)
  have w: "map (\<lambda>i. np_mod i (max_size b)) (np_arange idx (idx + n))
           = map (\<lambda>k. (idx + int k) mod max_size b) [0..<nat n]"
    using m n by (intro window_indices) simp_all
  show ?thesis
    unfolding get_transition_n_step_def Let_def w by (simp add: st p ns rl a)
qed

text \<open>
  Claim C1. For a filled slot \<open>idx\<close>, \<open>n \<ge> 1\<close> and any discount \<open>g\<close>,
  \<^verbatim>\<open>get_transition_n_step\<close> returns (it does not raise) the two composed states, the
  action of the slot, a return and a terminal flag such that: if \<open>k\<close> is the first
  offset below \<open>n\<close> whose slot \<open>(idx + k) mod max_size\<close> has its done flag set, the flag
  returned is true and the return is the sum of \<open>reward * g ^ j\<close> over the offsets
  \<open>j \<le> k\<close> (the reward of the done slot included, nothing after it); if no slot of
  the window has its done flag set, the flag returned is false and the return is the
  sum over all offsets \<open>j < n\<close>.
\<close>

theorem n_step_return:
  assumes inv: "buffer_inv b" and idx: "0 \<le> idx" "idx < len b" and n: "1 \<le> n"
  shows "\<exists>state next_state ret terminal.
     get_transition_n_step b idx h n g
       = Inr (state, actions b ! nat idx, ret, next_state, terminal) \<and>
     get_state b idx h = Inr state \<and>
     get_state b ((idx + n) mod max_size b) h = Inr next_state \<and>
     (\<forall>k<nat n. dones b ! nat ((idx + int k) mod max_size b) \<and>
                (\<forall>j<k. \<not> dones b ! nat ((idx + int j) mod max_size b))
         \<longrightarrow> terminal \<and>
             ret = (\<Sum>j\<le>k. rewards b ! nat ((idx + int j) mod max_size b) * g ^ j)) \<and>
     ((\<forall>k<nat n. \<not> dones b ! nat ((idx + int k) mod max_size b))
         \<longrightarrow> \<not> terminal \<and>
             ret = (\<Sum>j<nat n. rewards b ! nat ((idx + int j) mod max_size b) * g ^ j))"
proof -
  let ?m = "max_size b"
  let ?slot = "\<lambda>k. (idx + int k) mod ?m"
  let ?ids = "map ?slot [0..<nat n]"
  have m: "0 < ?m" "idx < ?m" "length (rewards b) = nat ?m" "length (dones b) = nat ?m"
    using inv idx by (simp_all add: buffer_inv_def)
  obtain state where st: "get_state b idx h = Inr state"
    using get_state_total[OF inv idx(1) m(2)] by blast
  have "0 \<le> (idx + n) mod ?m" "(idx + n) mod ?m < ?m" using m(1) by simp_all
  then obtain next_state where ns: "get_state b ((idx + n) mod ?m) h = Inr next_state"
    using get_state_total[OF inv] by blast
  have rng: "\<forall>i\<in>set ?ids. 0 \<le> i \<and> i < int (nat ?m)" using m(1) by auto
  have nth: "?ids ! j = ?slot j" if "j < nat n" for j using that by simp
  show ?thesis
  proof (cases "\<exists>k<nat n. dones b ! nat (?slot k)")
    case True
    define k where "k = (LEAST k. k < nat n \<and> dones b ! nat (?slot k))"
    have k: "k < nat n" "dones b ! nat (?slot k)"
      using LeastI_ex[OF True] unfolding k_def by simp_all
    have least: "\<not> dones b ! nat (?slot j)" if "j < k" for j
      using not_less_Least[of j "\<lambda>k. k < nat n \<and> dones b ! nat (?slot k)"] that k(1)
      unfolding k_def by simp
    have "reward_loop b g (enumerate 0 ?ids) 0 None
          = Inr (0 + (\<Sum>j\<le>k. rewards b ! nat (?ids ! j) * g ^ (0 + j)), Some True)"
      using k least by (intro reward_loop_first_done[OF m(3) m(4) rng]) (simp_all add: nth)
    also have "(\<Sum>j\<le>k. rewards b ! nat (?ids ! j) * g ^ (0 + j))
          = (\<Sum>j\<le>k. rewards b ! nat (?slot j) * g ^ j)"
      using k(1) by (intro sum.cong) (simp_all add: nth)
    finally have rl: "reward_loop b g (enumerate 0 ?ids) 0 None
          = Inr ((\<Sum>j\<le>k. rewards b ! nat (?slot j) * g ^ j), Some True)" by simp
    have uniq: "k' = k" if "k' < nat n" "dones b ! nat (?slot k')"
      "\<forall>j<k'. \<not> dones b ! nat (?slot j)" for k'
      using that k least by (meson linorder_neqE_nat)
    show ?thesis
      using get_transition_n_step_eq[OF inv idx(1) m(2) n st ns rl] st ns True uniq
      by (intro exI[of _ state] exI[of _ next_state]
          exI[of _ "\<Sum>j\<le>k. rewards b ! nat (?slot j) * g ^ j"] exI[of _ True]) auto
  next
    case False
    then have nd: "\<forall>i\<in>set ?ids. 0 \<le> i \<and> i < int (nat ?m) \<and> \<not> dones b ! nat i"
      using m(1) by auto
    have ne: "?ids \<noteq> []" using n by simp
    have "reward_loop b g (enumerate 0 ?ids) 0 None
          = Inr (0 + (\<Sum>j<length ?ids. rewards b ! nat (?ids ! j) * g ^ (0 + j)),
                 if ?ids = [] then None else Some False)"
      by (rule reward_loop_no_done[OF m(3) m(4) nd])
    also have "(\<Sum>j<length ?ids. rewards b ! nat (?ids ! j) * g ^ (0 + j))
          = (\<Sum>j<nat n. rewards b ! nat (?slot j) * g ^ j)"
      by (intro sum.cong) (simp_all add: nth)
    finally have rl: "reward_loop b g (enumerate 0 ?ids) 0 None
          = Inr ((\<Sum>j<nat n. rewards b ! nat (?slot j) * g ^ j), Some False)"
      using ne by simp
    show ?thesis
      using get_transition_n_step_eq[OF inv idx(1) m(2) n st ns rl] st ns False
      by (intro exI[of _ state] exI[of _ next_state]
          exI[of _ "\<Sum>j<nat n. rewards b ! nat (?slot j) * g ^ j"] exI[of _ False]) auto
  qed
qed

subsection \<open>Pointer and array bounds\<close>

lemma scatter_length [simp]: "length (scatter xs ids vs) = length xs"
  by (induction xs ids vs rule: scatter.induct) simp_all

lemma np_setitems_length: "np_setitems xs ids vals = Inr ys \<Longrightarrow> length ys = length xs"
  by (auto simp: np_setitems_def ebind_eq_Inr split: if_splits)

lemma step_rule:
  assumes "P s" "\<And>x. m = Inr x \<Longrightarrow> P (upd x)" "\<And>s'. P s' \<Longrightarrow> R (f s')"
    "\<And>s' e. P s' \<Longrightarrow> R (s', Some e)"
  shows "R (then_do (assign m upd s) f)"
  using assms by (cases m) simp_all

lemma push_episode_result:
  assumes inv: "buffer_inv b"
  shows "buffer_inv (fst (push_episode b ep)) \<and>
         (snd (push_episode b ep) = None \<longrightarrow>
            max_size b \<noteq> 0 \<and>
            pointer (fst (push_episode b ep))
              = (pointer b + int (length (ep_rewards ep))) mod max_size b)"
proof -
  define n where "n = int (length (ep_rewards ep))"
  define P :: "('a, 'b) buffer \<Rightarrow> bool" where
    "P = (\<lambda>s. buffer_inv s \<and> max_size s = max_size b \<and> pointer s = pointer b)"
  define R :: "('a, 'b) buffer \<times> error option \<Rightarrow> bool" where
    "R = (\<lambda>r. buffer_inv (fst r) \<and>
               (snd r = None \<longrightarrow> max_size b \<noteq> 0 \<and> pointer (fst r) = (pointer b + n) mod max_size b))"
  have P0: "P (b\<lparr>len := min (len b + n) (max_size b)\<rparr>)"
    using inv by (simp add: P_def buffer_inv_def n_def)
  have uo: "\<And>s ids vals x. np_setitems (observations s) ids vals = Inr x \<Longrightarrow> P s \<Longrightarrow> P (s\<lparr>observations := x\<rparr>)"
    and ua: "\<And>s ids vals x. np_setitems (actions s) ids vals = Inr x \<Longrightarrow> P s \<Longrightarrow> P (s\<lparr>actions := x\<rparr>)"
    and ur: "\<And>s ids vals x. np_setitems (rewards s) ids vals = Inr x \<Longrightarrow> P s \<Longrightarrow> P (s\<lparr>rewards := x\<rparr>)"
    and ud: "\<And>s ids vals x. np_setitems (dones s) ids vals = Inr x \<Longrightarrow> P s \<Longrightarrow> P (s\<lparr>dones := x\<rparr>)"
    by (auto simp: P_def buffer_inv_def dest: np_setitems_length)
  have fail: "\<And>s e. P s \<Longrightarrow> R (s, Some e)" by (simp add: P_def R_def)
  have final: "\<And>s. P s \<Longrightarrow> R (assign (py_mod (pointer s + n) (max_size s)) (\<lambda>v. s\<lparr>pointer := v\<rparr>) s)"
    by (auto simp: P_def R_def py_mod_def buffer_inv_def)
  have "R (push_episode b ep)"
    unfolding push_episode_def Let_def n_def[symmetric]
    apply (rule step_rule[where P=P and R=R])
       apply (rule P0)
      apply (erule uo, rule P0)
     apply (rule step_rule[where P=P and R=R])
        apply assumption
       apply (erule ua, assumption)
      apply (rule step_rule[where P=P and R=R])
         apply assumption
        apply (erule ur, assumption)
       apply (rule step_rule[where P=P and R=R])
          apply assumption
         apply (erule ud, assumption)
        apply (erule final)
       apply (erule fail)
      apply (erule fail)
     apply (erule fail)
    apply (erule fail)
    done
  then show ?thesis by (simp add: R_def n_def)
qed

lemma buffer_inv_init:
  assumes "BufferDataset_init np mem_o mem_a mem_r mem_d os as m h n g da bo = Inr b"
  shows "buffer_inv b"
  using BufferDataset_init_fields[OF assms] by (simp add: buffer_inv_def)

lemma buffer_inv_push_all: "buffer_inv b \<Longrightarrow> buffer_inv (push_all b eps)"
  by (induction eps arbitrary: b) (simp_all add: push_episode_result)

lemma reward_loop_total:
  assumes "length (rewards b) = N" "length (dones b) = N"
    and "\<forall>i\<in>set ids. 0 \<le> i \<and> i < int N" "ids \<noteq> []"
  shows "\<exists>ret t. reward_loop b g (enumerate k ids) cum d0 = Inr (ret, Some t)"
  using assms(3,4)
proof (induction ids arbitrary: k cum d0)
  case Nil
  then show ?case by simp
next
  case (Cons i ids)
  have i: "0 \<le> i" "i < int N" using Cons.prems by simp_all
  have gr: "np_getitem (rewards b) i = Inr (rewards b ! nat i)"
    and gd: "np_getitem (dones b) i = Inr (dones b ! nat i)"
    using i assms(1,2) by (simp_all add: np_getitem_ok)
  show ?case
  proof (cases "dones b ! nat i \<or> ids = []")
    case True
    then show ?thesis by (auto simp: gr gd)
  next
    case False
    then obtain ret t where
      "reward_loop b g (enumerate (Suc k) ids) (cum + rewards b ! nat i * g ^ k) (Some (dones b ! nat i))
        = Inr (ret, Some t)"
      using Cons.IH[of "Suc k" "cum + rewards b ! nat i * g ^ k" "Some (dones b ! nat i)"] Cons.prems
      by auto
    with False show ?thesis by (simp add: gr gd)
  qed
qed

lemma get_transition_n_step_total:
  assumes inv: "buffer_inv b" and idx: "0 \<le> idx" "idx < max_size b" and n: "1 \<le> n"
  shows "\<exists>t. get_transition_n_step b idx h n g = Inr t"
proof -
  let ?m = "max_size b"
  let ?ids = "map (\<lambda>k. (idx + int k) mod ?m) [0..<nat n]"
  have m: "0 < ?m" "idx < ?m" "length (rewards b) = nat ?m" "length (dones b) = nat ?m"
    using inv idx by (simp_all add: buffer_inv_def)
  obtain state where st: "get_state b idx h = Inr state"
    using get_state_total[OF inv idx(1) m(2)] by blast
  have "0 \<le> (idx + n) mod ?m" "(idx + n) mod ?m < ?m" using m(1) by simp_all
  then obtain next_state where ns: "get_state b ((idx + n) mod ?m) h = Inr next_state"
    using get_state_total[OF inv] by blast
  have rng: "\<forall>i\<in>set ?ids. 0 \<le> i \<and> i < int (nat ?m)" using m(1) by auto
  have ne: "?ids \<noteq> []" using n by simp
  obtain ret t where "reward_loop b g (enumerate 0 ?ids) 0 None = Inr (ret, Some t)"
    using reward_loop_total[OF m(3) m(4) rng ne] by blast
  from get_transition_n_step_eq[OF inv idx n st ns this] show ?thesis by blast
qed

text \<open>
  Claim C10. Take a buffer that the constructor returned, any sequence of
  \<^verbatim>\<open>push_episode\<close> calls on it and one more call (for episodes of any length); let the
  capacity be positive, or let that last call have returned without raising (which it
  can only do when the capacity is positive). After the call the pointer is in
  \<open>[0, max_size)\<close>, the filled count in \<open>[0, max_size]\<close>, the four arrays still have
  \<open>max_size\<close> slots, \<^verbatim>\<open>len()\<close> is the filled count, and for every index below \<^verbatim>\<open>len()\<close>
  both \<^verbatim>\<open>get_state\<close> (any history length) and \<^verbatim>\<open>get_transition_n_step\<close> (any
  \<open>n_step \<ge> 1\<close>) return a value: no read of theirs is out of the bounds of an array.
\<close>

theorem reads_in_bounds:
  assumes init: "BufferDataset_init np mem_o mem_a mem_r mem_d os as m h0 n0 g0 da bo = Inr b0"
    and push: "b = fst (push_episode (push_all b0 eps) ep)"
    and ok: "0 < m \<or> snd (push_episode (push_all b0 eps) ep) = None"
  shows "0 \<le> pointer b \<and> pointer b < max_size b \<and>
         0 \<le> len b \<and> len b \<le> max_size b \<and> max_size b = m \<and>
         length (observations b) = nat m \<and> length (actions b) = nat m \<and>
         length (rewards b) = nat m \<and> length (dones b) = nat m \<and>
         buffer_len b = len b \<and>
         (\<forall>idx h. 0 \<le> idx \<and> idx < buffer_len b \<longrightarrow>
            (\<exists>s. get_state b idx h = Inr s) \<and>
            (\<forall>n g. 1 \<le> n \<longrightarrow> (\<exists>t. get_transition_n_step b idx h n g = Inr t)))"
proof -
  let ?b = "push_all b0 eps"
  have i0: "buffer_inv ?b" using buffer_inv_init[OF init] by (rule buffer_inv_push_all)
  have ms: "max_size ?b = m"
    using BufferDataset_init_fields[OF init] by (simp add: push_all_max_size)
  have inv: "buffer_inv b" and mb: "max_size b = m"
    and p: "snd (push_episode ?b ep) = None \<longrightarrow> max_size ?b \<noteq> 0"
    using push_episode_result[OF i0, of ep] push_episode_len_max_size[of ?b ep] push ms
    by simp_all
  have "0 \<le> m" using inv mb by (simp add: buffer_inv_def)
  then have mpos: "0 < m" using ok p ms by auto
  have pb: "0 \<le> pointer b" "pointer b < max_size b"
    using inv mpos mb by (simp_all add: buffer_inv_def)
  have reads: "(\<exists>s. get_state b idx h = Inr s) \<and>
            (\<forall>n g. 1 \<le> n \<longrightarrow> (\<exists>t. get_transition_n_step b idx h n g = Inr t))"
    if "0 \<le> idx \<and> idx < buffer_len b" for idx h
  proof -
    have idx: "0 \<le> idx" "idx < len b" using that by (simp_all add: buffer_len_def)
    then have "idx < max_size b" using inv by (simp add: buffer_inv_def)
    then show ?thesis
      using get_state_total[OF inv idx(1)] get_transition_n_step_total[OF inv idx(1)] by blast
  qed
  show ?thesis
    using pb inv mb reads by (simp add: buffer_inv_def buffer_len_def)
qed

subsection \<open>Writes of \<^verbatim>\<open>push_episode\<close>\<close>

lemma scatter_nth_notin: "i \<notin> set ids \<Longrightarrow> scatter xs ids vs ! i = xs ! i"
  by (induction xs ids vs rule: scatter.induct) auto

lemma scatter_last_write:
  assumes "length vs = length ids" "j < length ids"
    and "\<forall>k. j < k \<and> k < length ids \<longrightarrow> ids ! k \<noteq> ids ! j" "ids ! j < length xs"
  shows "scatter xs ids vs ! (ids ! j) = vs ! j"
  using assms
proof (induction ids arbitrary: xs vs j)
  case Nil
  then show ?case by simp
next
  case (Cons a ids)
  then obtain v vs' where vs: "vs = v # vs'" by (cases vs) simp_all
  show ?case
  proof (cases j)
    case 0
    have "a \<notin> set ids"
    proof
      assume "a \<in> set ids"
      then obtain k where "k < length ids" "ids ! k = a" by (metis in_set_conv_nth)
      then have "0 < Suc k \<and> Suc k < length (a # ids)" "(a # ids) ! Suc k = (a # ids) ! 0" by simp_all
      with Cons.prems(3) 0 show False by blast
    qed
    then have "scatter (xs[a := v]) ids vs' ! a = (xs[a := v]) ! a" by (rule scatter_nth_notin)
    then show ?thesis using 0 vs Cons.prems(4) by simp
  next
    case (Suc j')
    have "\<forall>k. j' < k \<and> k < length ids \<longrightarrow> ids ! k \<noteq> ids ! j'"
    proof (intro allI impI)
      fix k assume "j' < k \<and> k < length ids"
      then have "j < Suc k \<and> Suc k < length (a # ids)" using Suc by simp
      with Cons.prems(3) have "(a # ids) ! Suc k \<noteq> (a # ids) ! j" by blast
      then show "ids ! k \<noteq> ids ! j'" using Suc by simp
    qed
    then have "scatter (xs[a := v]) ids vs' ! (ids ! j') = vs' ! j'"
      using Cons.prems Suc vs by (intro Cons.IH) simp_all
    then show ?thesis using Suc vs by simp
  qed
qed

lemma ring_slots_distinct:
  assumes "0 < (m::int)" "j < k" "int k < int j + m"
  shows "(p + int k) mod m \<noteq> (p + int j) mod m"
proof
  assume "(p + int k) mod m = (p + int j) mod m"
  then have "m dvd (p + int k) - (p + int j)" by (simp add: mod_eq_dvd_iff)
  then have "m dvd int k - int j" by (simp add: algebra_simps)
  then have "m \<le> int k - int j" using assms(2) by (intro zdvd_imp_le) simp_all
  with assms(3) show False by simp
qed

lemma np_setitems_ring:
  assumes m: "0 < m" "length xs = nat m" and l: "length vals = n"
  shows "np_setitems xs (map (\<lambda>i. np_mod i m) (np_arange p (p + int n))) vals
         = Inr (scatter xs (map (\<lambda>k. nat ((p + int k) mod m)) [0..<n]) vals)"
proof -
  have w: "map (\<lambda>i. np_mod i m) (np_arange p (p + int n)) = map (\<lambda>k. (p + int k) mod m) [0..<n]"
    using window_indices[OF m(1), of "int n" p] by simp
  have ge0: "0 \<le> (p + int k) mod m" and lt: "(p + int k) mod m < m" for k
    using m(1) by simp_all
  have ge: "\<not> (p + int k) mod m < 0" and ge': "- m \<le> (p + int k) mod m" for k
    using ge0[of k] m(1) by linarith+
  have a: "list_all (\<lambda>i. - int (length xs) \<le> i \<and> i < int (length xs)) (map (\<lambda>k. (p + int k) mod m) [0..<n])"
    using m by (simp add: list_all_iff ge' lt)
  have nn: "map (norm_index (length xs)) (map (\<lambda>k. (p + int k) mod m) [0..<n])
        = map (\<lambda>k. nat ((p + int k) mod m)) [0..<n]"
    by (simp add: norm_index_def ge)
  show ?thesis
    unfolding w np_setitems_def nn using l a by (simp add: broadcast_rows_def)
qed

lemma push_episode_ok:
  assumes inv: "buffer_inv b" and m: "0 < max_size b"
    and l: "length (ep_observations ep) = n" "length (ep_actions ep) = n"
      "length (ep_rewards ep) = n" "length (ep_dones ep) = n"
  shows "push_episode b ep =
    (b\<lparr>len := min (len b + int n) (max_size b),
       observations := scatter (observations b)
          (map (\<lambda>k. nat ((pointer b + int k) mod max_size b)) [0..<n]) (ep_observations ep),
       actions := scatter (actions b)
          (map (\<lambda>k. nat ((pointer b + int k) mod max_size b)) [0..<n]) (ep_actions ep),
       rewards := scatter (rewards b)
          (map (\<lambda>k. nat ((pointer b + int k) mod max_size b)) [0..<n]) (ep_rewards ep),
       dones := scatter (dones b)
          (map (\<lambda>k. nat ((pointer b + int k) mod max_size b)) [0..<n]) (ep_dones ep),
       pointer := (pointer b + int n) mod max_size b\<rparr>, None)"
proof -
  have len: "length (observations b) = nat (max_size b)" "length (actions b) = nat (max_size b)"
    "length (rewards b) = nat (max_size b)" "length (dones b) = nat (max_size b)"
    using inv by (simp_all add: buffer_inv_def)
  have p: "py_mod (pointer b + int n) (max_size b) = Inr ((pointer b + int n) mod max_size b)"
    using m by (simp add: py_mod_def)
  show ?thesis
    unfolding push_episode_def Let_def l
    by (simp add: np_setitems_ring[OF m len(1) l(1)] np_setitems_ring[OF m len(2) l(2)]
        np_setitems_ring[OF m len(3) l(3)] np_setitems_ring[OF m len(4) l(4)] p)
qed

lemma ring_write_nth:
  assumes m: "0 < m" "length xs = nat m" and l: "length vals = n" and j: "j < n" "int n \<le> int j + m"
  shows "scatter xs (map (\<lambda>k. nat ((p + int k) mod m)) [0..<n]) vals ! nat ((p + int j) mod m)
         = vals ! j"
proof -
  let ?ids = "map (\<lambda>k. nat ((p + int k) mod m)) [0..<n]"
  have nth: "?ids ! k = nat ((p + int k) mod m)" if "k < n" for k using that by simp
  have d: "\<forall>k. j < k \<and> k < length ?ids \<longrightarrow> ?ids ! k \<noteq> ?ids ! j"
  proof (intro allI impI)
    fix k assume k: "j < k \<and> k < length ?ids"
    then have "int k < int j + m" using j by simp
    then have "(p + int k) mod m \<noteq> (p + int j) mod m"
      using k by (intro ring_slots_distinct[OF m(1)]) simp_all
    moreover have "0 \<le> (p + int k) mod m" "0 \<le> (p + int j) mod m" using m(1) by simp_all
    ultimately have "nat ((p + int k) mod m) \<noteq> nat ((p + int j) mod m)" by linarith
    then show "?ids ! k \<noteq> ?ids ! j" using k j by (simp add: nth)
  qed
  have "(p + int j) mod m < m" using m(1) by simp
  then have r: "?ids ! j < length xs" using j m by (simp add: nth)
  have "scatter xs ?ids vals ! (?ids ! j) = vals ! j"
    using l j by (intro scatter_last_write d r) simp_all
  then show ?thesis using j by (simp add: nth)
qed

text \<open>
  Claim C3, as the code has it. \<^verbatim>\<open>push_episode\<close> has no capacity check. On a buffer
  of positive capacity, an episode whose four arrays have the same number \<open>n\<close> of rows
  is pushed without an exception, also when \<open>n\<close> exceeds the capacity: the filled
  count becomes \<open>min (len + n) max_size\<close>, the pointer advances by \<open>n\<close> modulo
  \<open>max_size\<close>, and step \<open>j\<close> of the episode is in slot \<open>(pointer + j) mod max_size\<close> of
  the four arrays for each of the last \<open>max_size\<close> steps (all steps when
  \<open>n \<le> max_size\<close>; the earlier steps of a longer episode are overwritten).
\<close>

theorem push_episode_no_capacity_check:
  assumes inv: "buffer_inv b" and m: "0 < max_size b"
    and l: "length (ep_observations ep) = n" "length (ep_actions ep) = n"
      "length (ep_rewards ep) = n" "length (ep_dones ep) = n"
  shows "snd (push_episode b ep) = None \<and>
    len (fst (push_episode b ep)) = min (len b + int n) (max_size b) \<and>
    pointer (fst (push_episode b ep)) = (pointer b + int n) mod max_size b \<and>
    (\<forall>j<n. int n \<le> int j + max_size b \<longrightarrow>
       observations (fst (push_episode b ep)) ! nat ((pointer b + int j) mod max_size b)
          = ep_observations ep ! j \<and>
       actions (fst (push_episode b ep)) ! nat ((pointer b + int j) mod max_size b)
          = ep_actions ep ! j \<and>
       rewards (fst (push_episode b ep)) ! nat ((pointer b + int j) mod max_size b)
          = ep_rewards ep ! j \<and>
       dones (fst (push_episode b ep)) ! nat ((pointer b + int j) mod max_size b)
          = ep_dones ep ! j)"
proof -
  have len: "length (observations b) = nat (max_size b)" "length (actions b) = nat (max_size b)"
    "length (rewards b) = nat (max_size b)" "length (dones b) = nat (max_size b)"
    using inv by (simp_all add: buffer_inv_def)
  show ?thesis
    unfolding push_episode_ok[OF inv m l]
    by (simp add: ring_write_nth[OF m len(1) l(1)] ring_write_nth[OF m len(2) l(2)]
        ring_write_nth[OF m len(3) l(3)] ring_write_nth[OF m len(4) l(4)])
qed

subsection \<open>The episode accumulator\<close>

lemma np_take_arange:
  assumes "0 \<le> p" "p \<le> int (length xs)"
  shows "np_take xs (np_arange 0 p) = Inr (take (nat p) xs)"
proof -
  have "np_take xs (np_arange 0 p) = Inr (map (\<lambda>i. xs ! nat i) (np_arange 0 p))"
    using assms by (intro np_take_ok) (auto simp: np_arange_def)
  also have "map (\<lambda>i. xs ! nat i) (np_arange 0 p) = map ((!) xs) [0..<nat p]"
    by (simp add: np_arange_def)
  also have "\<dots> = take (nat p) xs"
    using assms by (intro nth_equalityI) simp_all
  finally show ?thesis .
qed

lemma np_take_arange_nat:
  "n \<le> length xs \<Longrightarrow> np_take xs (np_arange 0 (int n)) = Inr (take n xs)"
  using np_take_arange[of "int n" xs] by simp

lemma SamplerBuffer_init_fields:
  assumes "SamplerBuffer_init np mem_o mem_a mem_r mem_d c os as da bo = Inr sb"
  shows "sb_size sb = c \<and> sb_pointer sb = 0 \<and> 0 \<le> c \<and>
    length (sb_observations sb) = nat c \<and> length (sb_actions sb) = nat c \<and>
    length (sb_rewards sb) = nat c \<and> length (sb_dones sb) = nat c"
proof -
  from assms obtain odt adt obs acts rews dns where
    o: "np_empty (c # os) mem_o = Inr obs" and
    a: "np_empty (c # as) mem_a = Inr acts" and
    r: "np_empty [c] mem_r = Inr rews" and
    d: "np_empty [c] mem_d = Inr dns" and
    b: "sb = \<lparr> sb_size = c, sb_observation_shape = os,
             sb_action_shape = as, sb_obs_dtype = odt, sb_act_dtype = adt,
             sb_pointer = 0,
             sb_observations = obs, sb_actions = acts, sb_rewards = rews,
             sb_dones = dns \<rparr>"
    unfolding SamplerBuffer_init_def ebind_eq_Inr by blast
  show ?thesis
    using np_empty_length[OF o] np_empty_length[OF a] np_empty_length[OF r] np_empty_length[OF d]
    by (simp add: b)
qed

lemma np_setitem_eq_Inr:
  "0 \<le> i \<Longrightarrow> np_setitem xs i v = Inr ys \<longleftrightarrow> i < int (length xs) \<and> ys = xs[nat i := v]"
  by (auto simp: np_setitem_def norm_index_def)

lemma take_update_last: "n < length xs \<Longrightarrow> take (Suc n) (xs[n := v]) = take n xs @ [v]"
  by (simp add: take_Suc_conv_app_nth)

lemma acc_inv_seed:
  assumes len: "length (sb_actions sb) = length (sb_observations sb)"
    "length (sb_rewards sb) = length (sb_observations sb)"
    "length (sb_dones sb) = length (sb_observations sb)"
    and seed: "init_with_observation sb o0 = (sb', None)"
  shows "acc_inv sb' [o0] [] [] []"
proof (cases "np_setitem (sb_observations sb) 0 o0")
  case (Inl e)
  then show ?thesis using seed by (simp add: init_with_observation_def)
next
  case (Inr ys)
  then have ys: "0 < length (sb_observations sb)" "ys = (sb_observations sb)[0 := o0]"
    using np_setitem_eq_Inr[of 0 "sb_observations sb" o0 ys] by simp_all
  have "sb' = sb\<lparr>sb_observations := ys, sb_pointer := 0\<rparr>"
    using seed Inr by (simp add: init_with_observation_def)
  then show ?thesis
    using ys len by (simp add: acc_inv_def take_update_last[of 0, simplified])
qed

lemma acc_inv_push:
  assumes inv: "acc_inv sb os as rs ds"
    and push: "push_transition sb t = (sb', None)"
  shows "acc_inv sb' (os @ [s_tp1 t]) (as @ [a_t t]) (rs @ [r_t t]) (ds @ [d_t t])"
proof (cases "np_setitem (sb_observations sb) (sb_pointer sb + 1) (s_tp1 t)")
  case (Inl e)
  then show ?thesis using push by (simp add: push_transition_def)
next
  case (Inr ys)
  let ?p = "length as"
  have p: "sb_pointer sb = int ?p" "?p < length (sb_observations sb)"
    and l: "length (sb_actions sb) = length (sb_observations sb)"
      "length (sb_rewards sb) = length (sb_observations sb)"
      "length (sb_dones sb) = length (sb_observations sb)"
    using inv by (simp_all add: acc_inv_def)
  have ys: "Suc ?p < length (sb_observations sb)" "ys = (sb_observations sb)[Suc ?p := s_tp1 t]"
    using np_setitem_eq_Inr[of "sb_pointer sb + 1" "sb_observations sb" "s_tp1 t" ys] Inr p
    by (simp_all add: nat_add_distrib)
  have a: "np_setitem (sb_actions sb) (int ?p) (a_t t) = Inr ((sb_actions sb)[?p := a_t t])"
    and r: "np_setitem (sb_rewards sb) (int ?p) (r_t t) = Inr ((sb_rewards sb)[?p := r_t t])"
    and d: "np_setitem (sb_dones sb) (int ?p) (d_t t) = Inr ((sb_dones sb)[?p := d_t t])"
    using p l by (simp_all add: np_setitem_eq_Inr)
  have sb': "sb' = sb\<lparr>sb_observations := ys, sb_actions := (sb_actions sb)[?p := a_t t],
                     sb_rewards := (sb_rewards sb)[?p := r_t t],
                     sb_dones := (sb_dones sb)[?p := d_t t],
                     sb_pointer := int ?p + 1\<rparr>"
    using push Inr by (simp add: push_transition_def p(1) a r d)
  have o: "take (Suc (Suc ?p)) ys = os @ [s_tp1 t]"
    using inv ys by (simp add: acc_inv_def take_update_last)
  have ly: "length ys = length (sb_observations sb)" using ys(2) by simp
  show ?thesis
    unfolding sb' using inv ys(1) p l o ly
    by (simp add: acc_inv_def take_update_last)
qed

lemma acc_inv_append_all:
  assumes "acc_inv sb os as rs ds" "append_all sb ts = (sb', None)"
  shows "acc_inv sb' (os @ map s_tp1 ts) (as @ map a_t ts) (rs @ map r_t ts) (ds @ map d_t ts)"
  using assms
proof (induction ts arbitrary: sb os as rs ds)
  case Nil
  then show ?case by simp
next
  case (Cons t ts)
  obtain s1 e1 where s1: "push_transition sb t = (s1, e1)" by (cases "push_transition sb t")
  have e1: "e1 = None" using Cons.prems(2) s1 by (cases e1) simp_all
  then have a: "append_all s1 ts = (sb', None)" using Cons.prems(2) s1 by simp
  have "acc_inv s1 (os @ [s_tp1 t]) (as @ [a_t t]) (rs @ [r_t t]) (ds @ [d_t t])"
    using Cons.prems(1) s1 e1 by (intro acc_inv_push) simp_all
  from Cons.IH[OF this a] show ?case by simp
qed

lemma get_complete_episode_acc:
  assumes "acc_inv sb os as rs ds"
  shows "get_complete_episode sb = Inr (take (length as) os, as, rs, ds)"
proof -
  have p: "sb_pointer sb = int (length as)" "length as < length (sb_observations sb)"
    and l: "length (sb_actions sb) = length (sb_observations sb)"
      "length (sb_rewards sb) = length (sb_observations sb)"
      "length (sb_dones sb) = length (sb_observations sb)"
    and c: "take (Suc (length as)) (sb_observations sb) = os"
     "take (length as) (sb_actions sb) = as" "take (length as) (sb_rewards sb) = rs"
     "take (length as) (sb_dones sb) = ds"
    using assms by (simp_all add: acc_inv_def)
  have t: "np_take (sb_observations sb) (np_arange 0 (int (length as))) = Inr (take (length as) (sb_observations sb))"
    "np_take (sb_actions sb) (np_arange 0 (int (length as))) = Inr (take (length as) (sb_actions sb))"
    "np_take (sb_rewards sb) (np_arange 0 (int (length as))) = Inr (take (length as) (sb_rewards sb))"
    "np_take (sb_dones sb) (np_arange 0 (int (length as))) = Inr (take (length as) (sb_dones sb))"
    using p l by (simp_all add: np_take_arange_nat)
  have "take (length as) (sb_observations sb) = take (length as) os"
    unfolding c(1)[symmetric] by simp
  then show ?thesis
    unfolding get_complete_episode_def Let_def p(1) by (simp add: t c)
qed

text \<open>
  Claim C4, as the code has it. For an accumulator that the constructor returned, that
  was seeded with \<open>o0\<close> and to which the transitions \<open>ts\<close> were appended without an
  exception, the cursor is the number of transitions and \<^verbatim>\<open>get_complete_episode\<close>
  returns four arrays of that same length: the first \<open>cursor\<close> observations (the seed
  and the next observations of all steps but the last), and the actions, rewards and
  done flags of the steps. The observation written last, at index \<open>cursor\<close>, is not
  returned.
\<close>

theorem complete_episode_equal_lengths:
  assumes init: "SamplerBuffer_init np mem_o mem_a mem_r mem_d c os as da bo = Inr sb0"
    and seed: "init_with_observation sb0 o0 = (sb1, None)"
    and app: "append_all sb1 ts = (sb, None)"
  shows "sb_pointer sb = int (length ts) \<and>
         get_complete_episode sb
           = Inr (take (length ts) (o0 # map s_tp1 ts), map a_t ts, map r_t ts, map d_t ts) \<and>
         length (take (length ts) (o0 # map s_tp1 ts)) = length ts"
proof -
  have "acc_inv sb1 [o0] [] [] []"
    using SamplerBuffer_init_fields[OF init] seed by (intro acc_inv_seed[of sb0]) simp_all
  from acc_inv_append_all[OF this app]
  have a: "acc_inv sb (o0 # map s_tp1 ts) (map a_t ts) (map r_t ts) (map d_t ts)" by simp
  from get_complete_episode_acc[OF a] a show ?thesis by (simp add: acc_inv_def)
qed

section \<open>Concrete runs\<close>

lemmas prim_defs = np_mod_def py_mod_def np_arange_def py_range_def np_getitem_def
  slice_bound_def py_slice_def broadcast_rows_def norm_index_def np_setitems_def
  np_setitem_def np_set_tail_def np_zeros_def np_attr_def np_empty_def numpy_module_def
  py_or_def Let_def upt_rec

lemma ex_half_pushed: "push_episode ex_b0 ex_ep_a = (ex_half, None)"
  by (simp add: push_episode_def ex_b0_def ex_ep_a_def ex_half_def prim_defs)

lemma ex_full_pushed: "push_episode ex_half ex_ep_b = (ex_full, None)"
  by (simp add: push_episode_def ex_half_def ex_ep_b_def ex_full_def prim_defs)

lemma ex_full_inv: "buffer_inv ex_full"
  by (simp add: buffer_inv_def ex_full_def)

lemma ex_sb0_init:
  "SamplerBuffer_init numpy_module (\<lambda>_. 0) (\<lambda>_. 0) (\<lambda>_. 0) (\<lambda>_. False) 3 [] [1] False False
     = Inr ex_sb0"
  by (simp add: SamplerBuffer_init_def ex_sb0_def prim_defs)

lemma ex_sb1_seed: "init_with_observation ex_sb0 10 = (ex_sb1, None)"
  by (simp add: init_with_observation_def ex_sb0_def ex_sb1_def prim_defs)

lemma ex_sb3_append: "append_all ex_sb1 [ex_t1, ex_t2] = (ex_sb3, None)"
  by (simp add: push_transition_def ex_sb0_def ex_sb1_def ex_sb3_def ex_t1_def ex_t2_def
      prim_defs)

lemma ex_full_transition:
  "get_transition_n_step ex_full 0 1 2 (1/2) = Inr ([10], 20, 2, [10], True)"
  by (simp add: get_transition_n_step_def get_state_def ex_full_def prim_defs enumerate_eq_zip)

subsection \<open>C1\<close>

theorem n_step_return_witness:
  "buffer_inv ex_full \<and> (0::int) \<le> 0 \<and> 0 < len ex_full \<and> (1::int) \<le> 2 \<and>
   \<not> dones ex_full ! nat ((0 + int 0) mod max_size ex_full) \<and>
   dones ex_full ! nat ((0 + int 1) mod max_size ex_full) \<and>
   get_transition_n_step ex_full 0 1 2 (1/2) = Inr ([10], 20, 2, [10], True) \<and>
   (2::real) = (\<Sum>j\<le>1. rewards ex_full ! nat ((0 + int j) mod max_size ex_full) * (1/2) ^ j)"
proof -
  have h: "(0::int) \<le> 0" "0 < len ex_full" "(1::int) \<le> 2"
    by (simp_all add: ex_full_def)
  have d: "\<not> dones ex_full ! nat ((0 + int 0) mod max_size ex_full)"
    "dones ex_full ! nat ((0 + int 1) mod max_size ex_full)"
    by (simp_all add: ex_full_def)
  obtain state next_state ret terminal where
    t: "get_transition_n_step ex_full 0 1 2 (1/2)
          = Inr (state, actions ex_full ! nat 0, ret, next_state, terminal)"
    and r: "\<forall>k<nat 2. dones ex_full ! nat ((0 + int k) mod max_size ex_full) \<and>
                (\<forall>j<k. \<not> dones ex_full ! nat ((0 + int j) mod max_size ex_full))
         \<longrightarrow> terminal \<and>
             ret = (\<Sum>j\<le>k. rewards ex_full ! nat ((0 + int j) mod max_size ex_full) * (1/2) ^ j)"
    using n_step_return[OF ex_full_inv h, of 1 "1/2"] by blast
  have "ret = 2" using t by (simp add: ex_full_transition)
  moreover have "ret = (\<Sum>j\<le>1. rewards ex_full ! nat ((0 + int j) mod max_size ex_full) * (1/2) ^ j)"
    using r[rule_format, of 1] d by simp
  ultimately show ?thesis using ex_full_inv h d ex_full_transition by simp
qed

subsection \<open>C2\<close>

text \<open>
  With a history longer than the capacity the walk comes back to slot \<open>idx\<close>, and the
  done flag of \<open>idx\<close> itself cuts the history: in the full buffer of capacity 2 the state
  of slot 1 for a history of 3 has a zero first slot with the flag set and none without.
\<close>

theorem get_state_own_done_counterexample:
  "push_all ex_b0 [ex_ep_a, ex_ep_b] = ex_full \<and> (1::int) < len ex_full \<and>
   dones ex_full ! nat 1 \<and>
   get_state ex_full 1 3 = Inr [0, 10, 11] \<and>
   get_state (ex_full\<lparr>dones := (dones ex_full)[nat 1 := False]\<rparr>) 1 3 = Inr [11, 10, 11]"
proof -
  have p: "push_all ex_b0 [ex_ep_a, ex_ep_b] = ex_full"
    by (simp add: ex_half_pushed ex_full_pushed)
  have l: "(1::int) < len ex_full" "dones ex_full ! nat 1"
    by (simp_all add: ex_full_def)
  have g: "get_state ex_full 1 3 = Inr [0, 10, 11]"
    "get_state (ex_full\<lparr>dones := (dones ex_full)[nat 1 := False]\<rparr>) 1 3 = Inr [11, 10, 11]"
    by (simp_all add: get_state_def ex_full_def prim_defs)
  from p l g show ?thesis by blast
qed

theorem get_state_episode_boundary_witness:
  "buffer_inv ex_cut \<and> (0::int) \<le> 1 \<and> 1 < len ex_cut \<and>
   dones ex_cut ! nat (1 - 1) \<and> (1::int) < 2 \<and> 2 \<le> max_size ex_cut \<and>
   get_state ex_cut 1 2 = Inr [0, 11] \<and>
   get_state (ex_cut\<lparr>dones := (dones ex_cut)[nat 1 := True]\<rparr>) 1 2 = Inr [0, 11]"
proof -
  have i: "buffer_inv ex_cut" by (simp add: buffer_inv_def ex_cut_def ex_full_def)
  have h: "(0::int) \<le> 1" "1 < len ex_cut" by (simp_all add: ex_cut_def ex_full_def)
  have p: "0 < (1::int) \<and> dones ex_cut ! nat (1 - 1) \<and> (1::int) < 2" "2 \<le> max_size ex_cut"
    by (simp_all add: ex_cut_def ex_full_def)
  have o: "observations ex_cut ! nat 1 = 11" by (simp add: ex_cut_def ex_full_def)
  from get_state_episode_boundary[OF i h, of 2 True] p o
  show ?thesis using i h by simp
qed

subsection \<open>C3\<close>

text \<open>
  An episode of three steps pushed into the empty buffer of capacity 2: no exception,
  and the buffer is written.
\<close>

theorem push_episode_capacity_counterexample:
  "max_size ex_b0 < int (length (ep_rewards ex_ep3)) \<and>
   push_episode ex_b0 ex_ep3 =
     (ex_b0\<lparr>len := 2, pointer := 1, observations := [12, 11], actions := [22, 21],
        rewards := [3, 2], dones := [True, False]\<rparr>, None)"
  by (simp add: push_episode_def ex_b0_def ex_ep3_def prim_defs)

theorem push_episode_no_capacity_check_witness:
  "buffer_inv ex_b0 \<and> 0 < max_size ex_b0 \<and>
   length (ep_observations ex_ep3) = 3 \<and> length (ep_actions ex_ep3) = 3 \<and>
   length (ep_rewards ex_ep3) = 3 \<and> length (ep_dones ex_ep3) = 3 \<and>
   snd (push_episode ex_b0 ex_ep3) = None \<and>
   len (fst (push_episode ex_b0 ex_ep3)) = 2 \<and>
   pointer (fst (push_episode ex_b0 ex_ep3)) = 1 \<and>
   rewards (fst (push_episode ex_b0 ex_ep3)) ! 0 = 3"
proof -
  have i: "buffer_inv ex_b0" "0 < max_size ex_b0"
    by (simp_all add: buffer_inv_def ex_b0_def)
  have l: "length (ep_observations ex_ep3) = 3" "length (ep_actions ex_ep3) = 3"
    "length (ep_rewards ex_ep3) = 3" "length (ep_dones ex_ep3) = 3"
    by (simp_all add: ex_ep3_def)
  have v: "min (len ex_b0 + int 3) (max_size ex_b0) = 2"
    "(pointer ex_b0 + int 3) mod max_size ex_b0 = 1"
    "nat ((pointer ex_b0 + int 2) mod max_size ex_b0) = 0" "ep_rewards ex_ep3 ! 2 = 3"
    "int 3 \<le> int 2 + max_size ex_b0"
    by (simp_all add: ex_b0_def ex_ep3_def)
  note t = push_episode_no_capacity_check[OF i l]
  have c: "snd (push_episode ex_b0 ex_ep3) = None"
    "len (fst (push_episode ex_b0 ex_ep3)) = min (len ex_b0 + int 3) (max_size ex_b0)"
    "pointer (fst (push_episode ex_b0 ex_ep3)) = (pointer ex_b0 + int 3) mod max_size ex_b0"
    using t by blast+
  have "\<forall>j<3. int 3 \<le> int j + max_size ex_b0 \<longrightarrow>
       rewards (fst (push_episode ex_b0 ex_ep3)) ! nat ((pointer ex_b0 + int j) mod max_size ex_b0)
          = ep_rewards ex_ep3 ! j"
    using t by blast
  from this[rule_format, of 2] v(5)
  have r: "rewards (fst (push_episode ex_b0 ex_ep3)) ! nat ((pointer ex_b0 + int 2) mod max_size ex_b0)
       = ep_rewards ex_ep3 ! 2" by simp
  have c': "len (fst (push_episode ex_b0 ex_ep3)) = 2"
    "pointer (fst (push_episode ex_b0 ex_ep3)) = 1"
    "rewards (fst (push_episode ex_b0 ex_ep3)) ! 0 = 3"
    using c(2,3) r unfolding v by simp_all
  from i l c(1) c' show ?thesis by blast
qed

subsection \<open>C4\<close>

text \<open>
  After the seed and two transitions the cursor is 2 and the observations returned are
  two, not three.
\<close>

theorem complete_episode_counterexample:
  "init_with_observation ex_sb0 10 = (ex_sb1, None) \<and>
   append_all ex_sb1 [ex_t1, ex_t2] = (ex_sb3, None) \<and> sb_pointer ex_sb3 = 2 \<and>
   get_complete_episode ex_sb3 = Inr ([10, 11], [21, 22], [1, 2], [False, True]) \<and>
   int (length [10, 11 :: int]) \<noteq> sb_pointer ex_sb3 + 1"
proof -
  have g: "get_complete_episode ex_sb3 = Inr ([10, 11], [21, 22], [1, 2], [False, True])"
    by (simp add: get_complete_episode_def ex_sb3_def prim_defs)
  have l: "sb_pointer ex_sb3 = 2" "int (length [10, 11 :: int]) \<noteq> sb_pointer ex_sb3 + 1"
    by (simp_all add: ex_sb3_def)
  from ex_sb1_seed ex_sb3_append g l show ?thesis by blast
qed

theorem complete_episode_equal_lengths_witness:
  "SamplerBuffer_init numpy_module (\<lambda>_. 0) (\<lambda>_. 0) (\<lambda>_. 0) (\<lambda>_. False) 3 [] [1] False False
     = Inr ex_sb0 \<and>
   init_with_observation ex_sb0 10 = (ex_sb1, None) \<and>
   append_all ex_sb1 [ex_t1, ex_t2] = (ex_sb3, None) \<and>
   sb_pointer ex_sb3 = 2 \<and>
   get_complete_episode ex_sb3 = Inr ([10, 11], [21, 22], [1, 2], [False, True])"
proof -
  have v: "int (length [ex_t1, ex_t2]) = 2"
    "take (length [ex_t1, ex_t2]) (10 # map s_tp1 [ex_t1, ex_t2]) = [10, 11]"
    "map a_t [ex_t1, ex_t2] = [21, 22]" "map r_t [ex_t1, ex_t2] = [1, 2]"
    "map d_t [ex_t1, ex_t2] = [False, True]"
    by (simp_all add: ex_t1_def ex_t2_def)
  note t = complete_episode_equal_lengths[OF ex_sb0_init ex_sb1_seed ex_sb3_append]
  have "sb_pointer ex_sb3 = 2"
    "get_complete_episode ex_sb3 = Inr ([10, 11], [21, 22], [1, 2], [False, True])"
    using t unfolding v by blast+
  with ex_sb0_init ex_sb1_seed ex_sb3_append show ?thesis by blast
qed

subsection \<open>C5\<close>

text \<open>
  Claim C5 (the state returned for step 0 is the zero-padded state ending at index 0).
  The code does not do this: \<^verbatim>\<open>get_states_history\<close> passes \<^verbatim>\<open>pointer=0\<close> for step 0,
  and \<^verbatim>\<open>pointer or self.pointer\<close> replaces the 0 by the cursor, so the first state is
  the one ending at the cursor. After the seed 10 and two transitions with the next
  observations 11 and 12, the states for a history of 2 are \<open>[11, 12]\<close> and \<open>[10, 11]\<close>;
  the state of step 0 would be \<open>[0, 10]\<close>.
\<close>

theorem states_history_step_zero:
  "sb_get_state sb h (Some 0) = sb_get_state sb h (Some (sb_pointer sb)) \<and>
   append_all ex_sb1 [ex_t1, ex_t2] = (ex_sb3, None) \<and>
   get_states_history ex_sb3 2 = Inr [[11, 12], [10, 11]]"
proof -
  have a: "sb_get_state sb h (Some 0) = sb_get_state sb h (Some (sb_pointer sb))"
    by (simp add: sb_get_state_def py_or_def)
  have g: "get_states_history ex_sb3 2 = Inr [[11, 12], [10, 11]]"
    by (simp add: get_states_history_def sb_get_state_def ex_sb3_def prim_defs)
  from a ex_sb3_append g show ?thesis by blast
qed

subsection \<open>C7\<close>

theorem get_state_zero_padding_witness:
  "buffer_inv ex_half \<and> len ex_half < max_size ex_half \<and> (0::int) \<le> 0 \<and>
   0 < len ex_half \<and> (0::int) < 3 - 1 \<and> \<not> dones ex_half ! nat 0 \<and>
   get_state ex_half 0 3 = Inr [0, 0, 10]"
proof -
  have i: "buffer_inv ex_half" "len ex_half < max_size ex_half" "(0::int) \<le> 0"
    "0 < len ex_half" "(0::int) < 3 - 1"
    by (simp_all add: buffer_inv_def ex_half_def)
  have d: "\<forall>j\<in>{0..0::int}. \<not> dones ex_half ! nat j" by (simp add: ex_half_def)
  have v: "replicate (nat (3 - 1 - 0)) (0::int) @ take (nat (0 + 1)) (observations ex_half)
           = [0, 0, 10]"
    by (simp add: ex_half_def numeral_2_eq_2)
  from get_state_zero_padding[OF i d] show ?thesis using i d unfolding v by simp
qed

subsection \<open>C8\<close>

text \<open>
  \<^verbatim>\<open>__getitem__\<close> on the buffer that the constructor returned, with nothing pushed:
  a transition made of the unwritten slots, and no exception.
\<close>

theorem empty_buffer_getitem_counterexample:
  "buffer_len ex_b0 = 0 \<and>
   getitem ex_b0 0 = Inr \<lparr>td_state = [0], td_action = 0, td_reward = 0,
                           td_next_state = [0], td_done = 0\<rparr>"
  by (simp add: getitem_def get_transition_n_step_def get_state_def buffer_len_def ex_b0_def
      prim_defs enumerate_eq_zip)

text \<open>
  Claim C8, as the code has it. There is no check of the filled count and no
  \<^verbatim>\<open>EmptyBufferError\<close>. While the filled count is 0, asking the index generator for
  a positive number of indices fails, with the \<^verbatim>\<open>ValueError\<close> of numpy's choice from an
  empty population; assembling a transition does not fail: \<^verbatim>\<open>__getitem__\<close> at any
  index in \<open>[0, max_size)\<close>, with \<open>n_step \<ge> 1\<close>, returns a transition read from the
  slots as they are.
\<close>

theorem empty_buffer_sampling:
  assumes inv: "buffer_inv b" and empty: "buffer_len b = 0"
  shows "(0 < bs_len s \<longrightarrow> sampler_iter draw s b = Inl ValueError) \<and>
         (0 \<le> idx \<and> idx < max_size b \<and> 1 \<le> n_step b \<longrightarrow> (\<exists>t. getitem b idx = Inr t))"
proof (intro conjI impI)
  assume "0 < bs_len s"
  then show "sampler_iter draw s b = Inl ValueError"
    using empty by (simp add: sampler_iter_def np_random_choice_def)
next
  assume a: "0 \<le> idx \<and> idx < max_size b \<and> 1 \<le> n_step b"
  then obtain t where
    "get_transition_n_step b idx (history_len b) (n_step b) (gamma b) = Inr t"
    using get_transition_n_step_total[OF inv, of idx "n_step b" "history_len b" "gamma b"]
    by blast
  then show "\<exists>t. getitem b idx = Inr t"
    by (cases t) (simp add: getitem_def)
qed

theorem empty_buffer_sampling_witness:
  "buffer_inv ex_b0 \<and> buffer_len ex_b0 = 0 \<and> 0 < bs_len (BufferSampler_init ex_b0 1 1) \<and>
   (0::int) \<le> 0 \<and> 0 < max_size ex_b0 \<and> 1 \<le> n_step ex_b0 \<and>
   sampler_iter (\<lambda>_. 0) (BufferSampler_init ex_b0 1 1) ex_b0 = Inl ValueError \<and>
   (\<exists>t. getitem ex_b0 0 = Inr t)"
proof -
  have i: "buffer_inv ex_b0" "buffer_len ex_b0 = 0"
    by (simp_all add: buffer_inv_def buffer_len_def ex_b0_def)
  have h: "0 < bs_len (BufferSampler_init ex_b0 1 1)"
    "(0::int) \<le> 0 \<and> 0 < max_size ex_b0 \<and> 1 \<le> n_step ex_b0"
    by (simp_all add: BufferSampler_init_def ex_b0_def)
  from empty_buffer_sampling[OF i, of "BufferSampler_init ex_b0 1 1" "\<lambda>_. 0" 0] h
  show ?thesis using i by simp
qed

subsection \<open>C10\<close>

theorem reads_in_bounds_witness:
  "BufferDataset_init numpy_module (\<lambda>_. 0) (\<lambda>_. 0) (\<lambda>_. 0) (\<lambda>_. False)
      [] [1] 2 1 1 (1/2) False False = Inr ex_b0 \<and>
   ex_full = fst (push_episode (push_all ex_b0 [ex_ep_a]) ex_ep_b) \<and>
   snd (push_episode (push_all ex_b0 [ex_ep_a]) ex_ep_b) = None \<and>
   0 \<le> pointer ex_full \<and> pointer ex_full < max_size ex_full \<and>
   0 \<le> len ex_full \<and> len ex_full \<le> max_size ex_full \<and>
   (1::int) < buffer_len ex_full \<and>
   (\<exists>s. get_state ex_full 1 3 = Inr s) \<and>
   (\<exists>t. get_transition_n_step ex_full 1 3 2 (1/2) = Inr t)"
proof -
  have p: "ex_full = fst (push_episode (push_all ex_b0 [ex_ep_a]) ex_ep_b)"
    "snd (push_episode (push_all ex_b0 [ex_ep_a]) ex_ep_b) = None"
    by (simp_all add: ex_half_pushed ex_full_pushed)
  have l: "(0::int) \<le> 1 \<and> 1 < buffer_len ex_full" "(1::int) \<le> 2"
    by (simp_all add: buffer_len_def ex_full_def)
  from reads_in_bounds[OF ex_b0_init p(1) disjI2[OF p(2)]] l
  show ?thesis using ex_b0_init p by simp
qed

end
